theory Spec2Isabelle
  imports Main "HOL-Library.Sublist" "HOL-Library.Word"
begin

section \<open>Constants of bot.js\<close>

definition MAX_RECONNECT_ATTEMPTS :: nat where
  "MAX_RECONNECT_ATTEMPTS = 5"

definition RECONNECT_DELAY :: nat where
  "RECONNECT_DELAY = 5000"

definition MAX_STORED_HASHES :: nat where
  "MAX_STORED_HASHES = 1000"

text \<open>\<^verbatim>\<open>config.TELEGRAM_CHAT_IDS\<close> of config.js.\<close>

definition TELEGRAM_CHAT_IDS :: "string list" where
  "TELEGRAM_CHAT_IDS = [''-1003420206708'', ''-1003151782333'', ''-1002085925533'']"

section \<open>JavaScript values used by the bot\<close>

subsection \<open>Sets\<close>

text \<open>
  A JavaScript \<^verbatim>\<open>Set\<close> holds each value once and iterates in insertion order, so it is
  a list without repetition, oldest entry first. \<^verbatim>\<open>add\<close> of a value already present
  changes nothing (the value keeps its place); \<^verbatim>\<open>new Set(array)\<close> adds the elements of
  the array one after the other; \<^verbatim>\<open>Array.from(set)\<close> is the list itself.
\<close>

definition set_has :: "'a list \<Rightarrow> 'a \<Rightarrow> bool" where
  "set_has s x = (x \<in> set s)"

definition set_add :: "'a list \<Rightarrow> 'a \<Rightarrow> 'a list" where
  "set_add s x = (if set_has s x then s else s @ [x])"

definition new_Set :: "'a list \<Rightarrow> 'a list" where
  "new_Set xs = foldl set_add [] xs"

text \<open>\<^verbatim>\<open>array.slice(-k)\<close>: the last \<open>k\<close> elements, the whole array when it is shorter.\<close>

definition slice_last :: "nat \<Rightarrow> 'a list \<Rightarrow> 'a list" where
  "slice_last k xs = drop (length xs - k) xs"

subsection \<open>Numbers\<close>

text \<open>
  A JavaScript number is an IEEE 754 double. The captcha only produces non-negative
  integers, so a number is modelled by the integer it denotes, or \<open>Infinity\<close>.
  \<open>to_number n\<close> is the double nearest to the integer \<open>n\<close> (ties to even): every
  integer below \<open>2^53\<close> is a double; above, only 53 significant bits are kept.
\<close>

datatype number = Finite nat | Infinity

fun bit_length :: "nat \<Rightarrow> nat" where
  "bit_length n = (if n = 0 then 0 else Suc (bit_length (n div 2)))"

declare bit_length.simps [simp del]

definition to_number :: "nat \<Rightarrow> number" where
  "to_number n =
     (if n < 2 ^ 53 then Finite n
      else let e = bit_length n - 53;
               q = n div 2 ^ e;
               r = n mod 2 ^ e;
               q' = (if 2 * r > 2 ^ e \<or> (2 * r = 2 ^ e \<and> odd q) then q + 1 else q)
           in if q' * 2 ^ e \<ge> 2 ^ 1024 then Infinity else Finite (q' * 2 ^ e))"

text \<open>\<^verbatim>\<open>a + b\<close> on two such numbers: the exact sum, rounded to a double.\<close>

fun number_add :: "number \<Rightarrow> number \<Rightarrow> number" where
  "number_add (Finite a) (Finite b) = to_number (a + b)"
| "number_add _ _ = Infinity"

subsection \<open>Text scanned by the regular expression\<close>

text \<open>
  The text of a page element is a JavaScript string: a sequence of UTF-16 code units.
  \<^verbatim>\<open>\d\<close> is an ASCII digit; \<^verbatim>\<open>\s\<close> and \<^verbatim>\<open>trim()\<close> use the white space and line
  terminator code units of ECMAScript.
\<close>

type_synonym code_unit = "16 word"
type_synonym js_string = "code_unit list"

definition ascii :: "string \<Rightarrow> js_string" where
  "ascii s = map (\<lambda>c. of_nat (of_char c)) s"

definition is_digit :: "code_unit \<Rightarrow> bool" where
  "is_digit c = (0x30 \<le> c \<and> c \<le> 0x39)"

definition is_space :: "code_unit \<Rightarrow> bool" where
  "is_space c =
     (c = 0x09 \<or> c = 0x0A \<or> c = 0x0B \<or> c = 0x0C \<or> c = 0x0D \<or> c = 0x20 \<or> c = 0xA0
      \<or> c = 0x1680 \<or> (0x2000 \<le> c \<and> c \<le> 0x200A) \<or> c = 0x2028 \<or> c = 0x2029
      \<or> c = 0x202F \<or> c = 0x205F \<or> c = 0x3000 \<or> c = 0xFEFF)"

definition PLUS :: code_unit where
  "PLUS = 0x2B"

definition trim :: "js_string \<Rightarrow> js_string" where
  "trim s = rev (dropWhile is_space (rev (dropWhile is_space s)))"

text \<open>
  \<^verbatim>\<open>/(\d+)\s*\+\s*(\d+)/\<close> tried at the start of \<open>s\<close>. Each quantifier is greedy, and giving
  back a digit or a space can never help (the next item of the pattern would have to match
  the digit or space given back), so the greedy choice is the only one to try. The result
  is the pair of captured groups.
\<close>

definition match_here :: "js_string \<Rightarrow> (js_string \<times> js_string) option" where
  "match_here s =
     (let g1 = takeWhile is_digit s;
          s1 = dropWhile is_space (dropWhile is_digit s)
      in if g1 = [] then None
         else case s1 of
                [] \<Rightarrow> None
              | c # s2 \<Rightarrow>
                  if c \<noteq> PLUS then None
                  else let g2 = takeWhile is_digit (dropWhile is_space s2)
                       in if g2 = [] then None else Some (g1, g2))"

text \<open>\<^verbatim>\<open>text.match(re)\<close> without the global flag: the match at the leftmost position.\<close>

fun regex_match :: "js_string \<Rightarrow> (js_string \<times> js_string) option" where
  "regex_match [] = match_here []"
| "regex_match (c # cs) =
     (case match_here (c # cs) of Some m \<Rightarrow> Some m | None \<Rightarrow> regex_match cs)"

text \<open>
  \<^verbatim>\<open>parseInt\<close> on a captured group, which holds decimal digits only: the value of the
  digits, as a number (the nearest double; for more than 20 significant digits the
  standard also allows an approximation of it).
\<close>

definition digit_value :: "code_unit \<Rightarrow> nat" where
  "digit_value c = unat c - 48"

definition decimal :: "js_string \<Rightarrow> nat" where
  "decimal ds = foldl (\<lambda>acc c. 10 * acc + digit_value c) 0 ds"

definition parseInt :: "js_string \<Rightarrow> number" where
  "parseInt ds = to_number (decimal (takeWhile is_digit ds))"

text \<open>\<^verbatim>\<open>url.includes(part)\<close>.\<close>

fun str_includes :: "string \<Rightarrow> string \<Rightarrow> bool" where
  "str_includes [] part = (part = [])"
| "str_includes (c # cs) part = (prefix part (c # cs) \<or> str_includes cs part)"

section \<open>solveMathCaptcha\<close>

text \<open>
  The argument is the list of \<^verbatim>\<open>textContent\<close> of the page's \<^verbatim>\<open>label\<close>, \<^verbatim>\<open>span\<close> and
  \<^verbatim>\<open>div\<close> elements in document order; the result \<open>None\<close> is \<^verbatim>\<open>null\<close>.
\<close>

fun solveMathCaptcha :: "js_string list \<Rightarrow> number option" where
  "solveMathCaptcha [] = None"
| "solveMathCaptcha (el # labels) =
     (case regex_match (trim el) of
        Some (g1, g2) \<Rightarrow> Some (number_add (parseInt g1) (parseInt g2))
      | None \<Rightarrow> solveMathCaptcha labels)"

text \<open>
  Following the words of the specification: a text holds a challenge when it contains
  digits, a plus sign and digits, with any white space around the sign
  (\<^verbatim>\<open><int> + <int>\<close>).
\<close>

definition challenge_in :: "js_string \<Rightarrow> bool" where
  "challenge_in t =
     (\<exists>pre g1 w1 w2 g2 post.
        t = pre @ g1 @ w1 @ PLUS # w2 @ g2 @ post
        \<and> g1 \<noteq> [] \<and> g2 \<noteq> []
        \<and> list_all is_digit g1 \<and> list_all is_digit g2
        \<and> list_all is_space w1 \<and> list_all is_space w2)"

text \<open>
  The operands of a challenge, in the words of the pattern. \<open>challenge_at s g1 g2\<close>: the
  text \<open>s\<close> begins with the digits \<open>g1\<close>, then white space, a plus sign, white space
  and the digits \<open>g2\<close>, and no digit follows \<open>g2\<close> (a group takes all the digits there
  are). \<open>first_challenge t g1 g2\<close>: such a challenge begins somewhere in \<open>t\<close>, and
  none begins at an earlier position.
\<close>

definition challenge_at :: "js_string \<Rightarrow> js_string \<Rightarrow> js_string \<Rightarrow> bool" where
  "challenge_at s g1 g2 =
     (\<exists>w1 w2 post.
        s = g1 @ w1 @ PLUS # w2 @ g2 @ post
        \<and> g1 \<noteq> [] \<and> g2 \<noteq> []
        \<and> list_all is_digit g1 \<and> list_all is_digit g2
        \<and> list_all is_space w1 \<and> list_all is_space w2
        \<and> takeWhile is_digit post = [])"

definition first_challenge :: "js_string \<Rightarrow> js_string \<Rightarrow> js_string \<Rightarrow> bool" where
  "first_challenge t g1 g2 =
     (\<exists>pre s.
        t = pre @ s \<and> challenge_at s g1 g2
        \<and> (\<forall>p1 p2 a b. pre = p1 @ p2 \<and> p2 \<noteq> [] \<longrightarrow> \<not> challenge_at (p2 @ s) a b))"

section \<open>Records, effects and the state of the process\<close>

text \<open>
  A cell of a row of \<^verbatim>\<open>aaData\<close>. The panel sends strings; \<^verbatim>\<open>null\<close> cells and cells
  missing from a short row (\<^verbatim>\<open>undefined\<close>) are the falsy values that the code replaces
  by \<^verbatim>\<open>''\<close>.
\<close>

datatype cell = Undefined | Null | Str string

type_synonym row = "cell list"

definition cell_at :: "row \<Rightarrow> nat \<Rightarrow> cell" where
  "cell_at r i = (if i < length r then r ! i else Undefined)"

text \<open>A cell inside a template literal, and \<^verbatim>\<open>cell || ''\<close>.\<close>

fun template :: "cell \<Rightarrow> string" where
  "template Undefined = ''undefined''"
| "template Null = ''null''"
| "template (Str s) = s"

fun or_empty :: "cell \<Rightarrow> string" where
  "or_empty (Str s) = s"
| "or_empty _ = []"

fun is_string :: "cell \<Rightarrow> bool" where
  "is_string (Str s) = True"
| "is_string _ = False"

text \<open>The four cells that the hash is computed from are strings.\<close>

definition string_cells :: "row \<Rightarrow> bool" where
  "string_cells r =
     (is_string (cell_at r 0) \<and> is_string (cell_at r 2) \<and> is_string (cell_at r 3)
      \<and> is_string (cell_at r 5))"

record sms =
  hash :: string
  date :: string
  destination_addr :: string
  source_addr :: string
  client :: string
  short_message :: string

text \<open>The text sent to a channel: the source, the destination and the message of the template.\<close>

datatype otp_text = Otp_text string string string

datatype target = LOGIN_URL | SMS_REPORTS_URL

datatype browser_handle = Browser_handle nat
datatype page_handle = Page_handle nat

text \<open>
  The calls that the bot makes to the outside: the browser, Telegram and the file system.
  \<open>SendMessage chat text ok\<close> is one call of \<^verbatim>\<open>bot.sendMessage\<close> and whether it succeeded;
  \<open>Call_sendOTPToTelegram m\<close> marks the entry into \<^verbatim>\<open>sendOTPToTelegram(m)\<close>.
\<close>

datatype action =
    Launch
  | NewPage
  | Goto target
  | Wait nat
  | EvaluateCaptcha
  | TypeUsername
  | TypePassword
  | TypeCapt number
  | PressEnter
  | Probe
  | CloseBrowser
  | ReloadTable
  | Call_sendOTPToTelegram sms
  | SendMessage string otp_text bool
  | WriteFile "string list"

text \<open>
  The content of \<^verbatim>\<open>./sent-messages.json\<close>: no file, a file that cannot be read or parsed
  into something a \<^verbatim>\<open>Set\<close> can be built from, or a JSON array of strings (what the
  program itself writes).
\<close>

datatype snapshot_file = No_file | Unreadable | Json_array "string list"

text \<open>
  The module-level variables of bot.js, the file on disk, and the calls made so far.
\<close>

record bot_state =
  sentMessageHashes :: "string list"
  isPolling :: bool
  browser :: "browser_handle option"
  page :: "page_handle option"
  reconnectAttempts :: nat
  lastSuccessfulPoll :: nat
  pollCount :: nat
  messages_file :: snapshot_file
  effects :: "action list"

definition emit :: "action \<Rightarrow> bot_state \<Rightarrow> bot_state" where
  "emit a st = st\<lparr>effects := effects st @ [a]\<rparr>"

text \<open>
  What the outside answers during one call: each field is the outcome of one awaited
  operation, read only if the code gets there. \<open>False\<close> or \<open>None\<close> means that the
  operation throws.
\<close>

record world =
  chromePath_ok :: bool
  launch_result :: "browser_handle option"
  newPage_result :: "page_handle option"
  goto_login_ok :: bool
  login_page_texts :: "js_string list option"
  type_username_ok :: bool
  type_password_ok :: bool
  type_capt_ok :: bool
  press_enter_ok :: bool
  url_after_submit :: string
  goto_reports_ok :: bool
  probe_ok :: bool
  fetch_goto_ok :: bool
  reload_ok :: bool
  response :: "row list option option"
  now :: nat
  sendMessage_ok :: "nat \<Rightarrow> string \<Rightarrow> bool"
  writeFile_ok :: bool

datatype 'a outcome = Returned 'a | Raised

section \<open>loadSentMessages and saveSentMessages\<close>

definition loadSentMessages :: "bot_state \<Rightarrow> bot_state" where
  "loadSentMessages st =
     (case messages_file st of
        No_file \<Rightarrow> st
      | Unreadable \<Rightarrow> st\<lparr>sentMessageHashes := []\<rparr>
      | Json_array hashes \<Rightarrow> st\<lparr>sentMessageHashes := new_Set hashes\<rparr>)"

definition saveSentMessages :: "world \<Rightarrow> bot_state \<Rightarrow> bot_state" where
  "saveSentMessages w st =
     (let hashArray = slice_last MAX_STORED_HASHES (sentMessageHashes st);
          st1 = emit (WriteFile hashArray) st
      in if writeFile_ok w then st1\<lparr>messages_file := Json_array hashArray\<rparr> else st1)"

section \<open>initializeBrowser and ensureBrowserActive\<close>

text \<open>
  The body of \<^verbatim>\<open>initializeBrowser\<close> runs until a step throws; the \<^verbatim>\<open>catch\<close> logs and
  returns \<^verbatim>\<open>false\<close>, leaving the variables as they are at that moment. The model returns
  the result and the state. \<open>chromePath_ok\<close> is false when neither \<^verbatim>\<open>which chromium\<close> nor
  \<^verbatim>\<open>puppeteer.executablePath()\<close> gives a path. \<^verbatim>\<open>!captchaAnswer\<close> holds for \<^verbatim>\<open>null\<close>
  and for \<^verbatim>\<open>0\<close>.
\<close>

definition initializeBrowser :: "world \<Rightarrow> bot_state \<Rightarrow> bool \<times> bot_state" where
  "initializeBrowser w st0 =
     (if \<not> chromePath_ok w then (False, st0) else
      let st1 = emit Launch st0 in
      case launch_result w of None \<Rightarrow> (False, st1) | Some b \<Rightarrow>
      let st2 = emit NewPage (st1\<lparr>browser := Some b\<rparr>) in
      case newPage_result w of None \<Rightarrow> (False, st2) | Some p \<Rightarrow>
      let st3 = emit (Goto LOGIN_URL) (st2\<lparr>page := Some p\<rparr>) in
      if \<not> goto_login_ok w then (False, st3) else
      let st4 = emit EvaluateCaptcha (emit (Wait 1000) st3) in
      case login_page_texts w of None \<Rightarrow> (False, st4) | Some texts \<Rightarrow>
      case solveMathCaptcha texts of None \<Rightarrow> (False, st4) | Some captchaAnswer \<Rightarrow>
      if captchaAnswer = Finite 0 then (False, st4) else
      let st5 = emit TypeUsername st4 in
      if \<not> type_username_ok w then (False, st5) else
      let st6 = emit TypePassword st5 in
      if \<not> type_password_ok w then (False, st6) else
      let st7 = emit (TypeCapt captchaAnswer) st6 in
      if \<not> type_capt_ok w then (False, st7) else
      let st8 = emit PressEnter st7 in
      if \<not> press_enter_ok w then (False, st8) else
      if str_includes (url_after_submit w) ''login'' then (False, st8) else
      let st9 = emit (Goto SMS_REPORTS_URL) st8 in
      if \<not> goto_reports_ok w then (False, st9) else
      let st10 = emit (Wait 2000) st9 in
      (True, st10\<lparr>reconnectAttempts := 0\<rparr>))"

text \<open>
  \<^verbatim>\<open>ensureBrowserActive\<close>. \<^verbatim>\<open>initializeBrowser\<close> never throws, so the \<^verbatim>\<open>catch\<close> is
  entered only when the probe \<^verbatim>\<open>page.evaluate(() => true)\<close> throws.
\<close>

definition ensureBrowserActive :: "world \<Rightarrow> bot_state \<Rightarrow> bool \<times> bot_state" where
  "ensureBrowserActive w st =
     (if browser st = None \<or> page st = None then initializeBrowser w st
      else
        let st1 = emit Probe st in
        if probe_ok w then (True, st1)
        else
          let st2 = (if browser st1 \<noteq> None then emit CloseBrowser st1 else st1);
              st3 = st2\<lparr>browser := None, page := None\<rparr>
          in if reconnectAttempts st3 < MAX_RECONNECT_ATTEMPTS
             then initializeBrowser w
                    (emit (Wait RECONNECT_DELAY)
                       (st3\<lparr>reconnectAttempts := reconnectAttempts st3 + 1\<rparr>))
             else (False, st3))"

section \<open>fetchLatestSMS\<close>

text \<open>
  One row of \<^verbatim>\<open>aaData\<close> becomes a message. The digest function of the \<^verbatim>\<open>crypto\<close>
  library is the parameter \<open>md5\<close> (the hexadecimal MD5 digest of a string).
\<close>

definition msgData :: "row \<Rightarrow> string" where
  "msgData r =
     template (cell_at r 0) @ ''_'' @ template (cell_at r 2) @ ''_''
       @ template (cell_at r 3) @ ''_'' @ template (cell_at r 5)"

definition message_of_row :: "(string \<Rightarrow> string) \<Rightarrow> row \<Rightarrow> sms" where
  "message_of_row md5 r =
     \<lparr>hash = md5 (msgData r),
      date = or_empty (cell_at r 0),
      destination_addr = or_empty (cell_at r 2),
      source_addr = or_empty (cell_at r 3),
      client = or_empty (cell_at r 4),
      short_message = or_empty (cell_at r 5)\<rparr>"

text \<open>
  \<open>response w\<close> is what the response promise resolves to: \<open>None\<close> when the 15 s timer
  wins (\<^verbatim>\<open>null\<close>), \<open>Some None\<close> for a body without \<^verbatim>\<open>aaData\<close>, \<open>Some (Some rows)\<close>
  otherwise. Every throw inside the function ends in its \<^verbatim>\<open>catch\<close>, which returns \<^verbatim>\<open>[]\<close>.
\<close>

definition fetchLatestSMS ::
    "(string \<Rightarrow> string) \<Rightarrow> world \<Rightarrow> bot_state \<Rightarrow> sms list \<times> bot_state" where
  "fetchLatestSMS md5 w st =
     (let (browserActive, st1) = ensureBrowserActive w st in
      if \<not> browserActive then ([], st1) else
      let st2 = emit (Goto SMS_REPORTS_URL) st1 in
      if \<not> fetch_goto_ok w then ([], st2) else
      let st3 = emit ReloadTable st2 in
      if \<not> reload_ok w then ([], st3) else
      case response w of
        Some (Some aaData) \<Rightarrow>
          (map (message_of_row md5) aaData, st3\<lparr>lastSuccessfulPoll := now w\<rparr>)
      | _ \<Rightarrow> ([], st3))"

section \<open>sendOTPToTelegram\<close>

fun or_default :: "string \<Rightarrow> string \<Rightarrow> string" where
  "or_default [] d = d"
| "or_default s d = s"

definition format_otp :: "sms \<Rightarrow> otp_text" where
  "format_otp m =
     Otp_text (or_default (source_addr m) ''Unknown'')
       (or_default (destination_addr m) ''Unknown'')
       (filter (\<lambda>c. c \<noteq> CHR 0x00) (or_default (short_message m) ''No content''))"

text \<open>\<^verbatim>\<open>bot.sendMessage\<close>: the call is made, and it returns or throws.\<close>

definition bot_sendMessage ::
    "(string \<Rightarrow> bool) \<Rightarrow> string \<Rightarrow> otp_text \<Rightarrow> bot_state \<Rightarrow> unit outcome \<times> bot_state" where
  "bot_sendMessage ok chatId text st =
     (if ok chatId then Returned () else Raised, emit (SendMessage chatId text (ok chatId)) st)"

text \<open>The loop over the channels: the inner \<^verbatim>\<open>try\<close> and \<^verbatim>\<open>catch\<close> both go on to the next one.\<close>

fun send_to_channels ::
    "(string \<Rightarrow> bool) \<Rightarrow> otp_text \<Rightarrow> string list \<Rightarrow> bot_state \<Rightarrow> unit outcome \<times> bot_state" where
  "send_to_channels ok text [] st = (Returned (), st)"
| "send_to_channels ok text (chatId # chats) st =
     (case bot_sendMessage ok chatId text st of
        (Returned _, st1) \<Rightarrow> send_to_channels ok text chats st1
      | (Raised, st1) \<Rightarrow> send_to_channels ok text chats st1)"

text \<open>The outer \<^verbatim>\<open>try\<close> and \<^verbatim>\<open>catch\<close>: whatever the body does, the function returns.\<close>

definition sendOTPToTelegram_on ::
    "string list \<Rightarrow> (string \<Rightarrow> bool) \<Rightarrow> sms \<Rightarrow> bot_state \<Rightarrow> unit outcome \<times> bot_state" where
  "sendOTPToTelegram_on chats ok m st =
     (case send_to_channels ok (format_otp m) chats (emit (Call_sendOTPToTelegram m) st) of
        (Returned u, st1) \<Rightarrow> (Returned u, st1)
      | (Raised, st1) \<Rightarrow> (Returned (), st1))"

definition sendOTPToTelegram ::
    "(string \<Rightarrow> bool) \<Rightarrow> sms \<Rightarrow> bot_state \<Rightarrow> unit outcome \<times> bot_state" where
  "sendOTPToTelegram = sendOTPToTelegram_on TELEGRAM_CHAT_IDS"

section \<open>pollSMSAPI\<close>

text \<open>
  Lines 330 to 336: the hash is added to the set, and a set of more than
  \<open>MAX_STORED_HASHES\<close> entries is replaced by the set of its last 500.
\<close>

definition remember :: "string list \<Rightarrow> string \<Rightarrow> string list" where
  "remember s h =
     (let s1 = set_add s h
      in if length s1 > MAX_STORED_HASHES then new_Set (slice_last 500 s1) else s1)"

text \<open>The loop over the fetched messages, with the counter \<open>newCount\<close>.\<close>

fun deliver_new :: "world \<Rightarrow> sms list \<Rightarrow> bot_state \<times> nat \<Rightarrow> bot_state \<times> nat" where
  "deliver_new w [] (st, newCount) = (st, newCount)"
| "deliver_new w (m # messages) (st, newCount) =
     (if set_has (sentMessageHashes st) (hash m) then deliver_new w messages (st, newCount)
      else
        let st1 = snd (sendOTPToTelegram (sendMessage_ok w newCount) m st);
            st2 = st1\<lparr>sentMessageHashes := remember (sentMessageHashes st1) (hash m)\<rparr>
        in deliver_new w messages (st2, newCount + 1))"

text \<open>The body of the \<^verbatim>\<open>try\<close> block of \<^verbatim>\<open>pollSMSAPI\<close>.\<close>

definition poll_body ::
    "(string \<Rightarrow> string) \<Rightarrow> world \<Rightarrow> bot_state \<Rightarrow> unit outcome \<times> bot_state" where
  "poll_body md5 w st =
     (let (messages, st1) = fetchLatestSMS md5 w st in
      if messages \<noteq> [] then
        let (st2, newCount) = deliver_new w messages (st1, 0) in
        if newCount > 0 then (Returned (), saveSentMessages w st2) else (Returned (), st2)
      else (Returned (), st1))"

text \<open>
  The frame of \<^verbatim>\<open>pollSMSAPI\<close> around its body: the guard and the two assignments before
  the \<^verbatim>\<open>try\<close>, and the \<^verbatim>\<open>finally\<close>. A body that throws ends in the \<^verbatim>\<open>catch\<close>, which
  only logs, with the state as it is at the throw.
\<close>

definition poll_enter :: "bot_state \<Rightarrow> bot_state" where
  "poll_enter st = st\<lparr>isPolling := True, pollCount := pollCount st + 1\<rparr>"

definition poll_exit :: "bot_state \<Rightarrow> bot_state" where
  "poll_exit st = st\<lparr>isPolling := False\<rparr>"

definition poll_frame :: "(bot_state \<Rightarrow> unit outcome \<times> bot_state) \<Rightarrow> bot_state \<Rightarrow> bot_state" where
  "poll_frame body st =
     (if isPolling st then st
      else case body (poll_enter st) of
             (Returned _, st1) \<Rightarrow> poll_exit st1
           | (Raised, st1) \<Rightarrow> poll_exit st1)"

definition pollSMSAPI :: "(string \<Rightarrow> string) \<Rightarrow> world \<Rightarrow> bot_state \<Rightarrow> bot_state" where
  "pollSMSAPI md5 w = poll_frame (poll_body md5 w)"

text \<open>
  Invocations that overlap. A timer callback runs \<^verbatim>\<open>pollSMSAPI\<close> up to its first
  \<^verbatim>\<open>await\<close> without interruption: the guard, and for an admitted invocation the two
  assignments. A body in flight ends with the \<^verbatim>\<open>finally\<close>. The second component counts
  the bodies in flight.
\<close>

datatype timer_event = Timer_fires | Body_ends

fun overlap_step :: "bot_state \<times> nat \<Rightarrow> timer_event \<Rightarrow> bot_state \<times> nat" where
  "overlap_step (st, in_flight) Timer_fires =
     (if isPolling st then (st, in_flight) else (poll_enter st, in_flight + 1))"
| "overlap_step (st, in_flight) Body_ends =
     (if in_flight = 0 then (st, in_flight) else (poll_exit st, in_flight - 1))"

definition overlap_run :: "timer_event list \<Rightarrow> bot_state \<Rightarrow> bot_state \<times> nat" where
  "overlap_run events st = foldl overlap_step (st, 0) events"

section \<open>Runs of the process\<close>

text \<open>
  The state when the module has been loaded: the variables as bot.js initialises them
  (time is counted from that moment) and the file as it is on disk.
\<close>

definition start_state :: "snapshot_file \<Rightarrow> bot_state" where
  "start_state f =
     \<lparr>sentMessageHashes = [], isPolling = False, browser = None, page = None,
      reconnectAttempts = 0, lastSuccessfulPoll = 0, pollCount = 0,
      messages_file = f, effects = []\<rparr>"

text \<open>A new process started on the file that an earlier one left.\<close>

definition restart :: "bot_state \<Rightarrow> bot_state" where
  "restart st = loadSentMessages (start_state (messages_file st))"

text \<open>
  The operations on the set of hashes: \<^verbatim>\<open>loadSentMessages\<close> at start,
  \<^verbatim>\<open>pollSMSAPI\<close> at every tick, \<^verbatim>\<open>saveSentMessages\<close> at shutdown.
\<close>

datatype operation = Op_load | Op_poll world | Op_save world

fun perform :: "(string \<Rightarrow> string) \<Rightarrow> bot_state \<Rightarrow> operation \<Rightarrow> bot_state" where
  "perform md5 st Op_load = loadSentMessages st"
| "perform md5 st (Op_poll w) = pollSMSAPI md5 w st"
| "perform md5 st (Op_save w) = saveSentMessages w st"

definition run :: "(string \<Rightarrow> string) \<Rightarrow> operation list \<Rightarrow> bot_state \<Rightarrow> bot_state" where
  "run md5 ops st = foldl (perform md5) st ops"

text \<open>
  The set in memory is within the cap, and so is the array in the file, if there is one.
\<close>

definition within_cap :: "bot_state \<Rightarrow> bool" where
  "within_cap st =
     (length (sentMessageHashes st) \<le> MAX_STORED_HASHES
      \<and> (case messages_file st of
            Json_array hashes \<Rightarrow> length hashes \<le> MAX_STORED_HASHES
          | _ \<Rightarrow> True))"

text \<open>Sample data: pairwise different strings, and messages that carry them as hashes.\<close>

definition sample_hash :: "nat \<Rightarrow> string" where
  "sample_hash n = replicate n (CHR ''f'')"

definition sample_hashes :: "nat \<Rightarrow> string list" where
  "sample_hashes k = map sample_hash [0..<k]"

definition sample_sms :: "nat \<Rightarrow> sms" where
  "sample_sms n =
     \<lparr>hash = sample_hash n, date = ''2025-01-01 10:00:00'', destination_addr = ''15550100'',
      source_addr = ''Service'', client = ''client'', short_message = ''Your code is 1234''\<rparr>"

definition sample_batch :: "nat \<Rightarrow> sms list" where
  "sample_batch k = map sample_sms [0..<k]"

text \<open>
  A world in which every operation succeeds: the login page asks for \<open>3 + 4\<close>, the
  submitted form leads away from the login page, and the panel answers with no rows.
\<close>

definition always_sent :: "nat \<Rightarrow> string \<Rightarrow> bool" where
  "always_sent n chatId = True"

definition calm_world :: world where
  "calm_world =
     \<lparr>chromePath_ok = True, launch_result = Some (Browser_handle 1),
      newPage_result = Some (Page_handle 1), goto_login_ok = True,
      login_page_texts = Some [ascii ''Sign in'', ascii ''What is 3 + 4 = ?''],
      type_username_ok = True, type_password_ok = True, type_capt_ok = True,
      press_enter_ok = True, url_after_submit = ''https://panel.example/agent/SMSReports'',
      goto_reports_ok = True, probe_ok = True, fetch_goto_ok = True, reload_ok = True,
      response = Some (Some []), now = 1, sendMessage_ok = always_sent,
      writeFile_ok = True\<rparr>"

text \<open>A stand-in for the digest in sample runs: the text itself.\<close>

definition sample_digest :: "string \<Rightarrow> string" where
  "sample_digest s = s"



text \<open>A world in which every call of \<^verbatim>\<open>bot.sendMessage\<close> throws.\<close>

definition no_channel :: "string \<Rightarrow> bool" where
  "no_channel chatId = False"

definition never_sent :: "nat \<Rightarrow> string \<Rightarrow> bool" where
  "never_sent n chatId = False"

definition telegram_down :: world where
  "telegram_down = calm_world\<lparr>sendMessage_ok := never_sent\<rparr>"


text \<open>
  A world in which the browser has died: the probe throws, and a new browser and page
  are created but the navigation to the login page fails.
\<close>

definition dead_world :: world where
  "dead_world = calm_world\<lparr>probe_ok := False, goto_login_ok := False\<rparr>"

text \<open>A world whose login page shows no challenge.\<close>

definition no_captcha_world :: world where
  "no_captcha_world = calm_world\<lparr>login_page_texts := Some [ascii ''Sign in'']\<rparr>"

text \<open>A process with a session: a browser and a page exist.\<close>

definition logged_in :: bot_state where
  "logged_in =
     (start_state No_file)\<lparr>browser := Some (Browser_handle 0), page := Some (Page_handle 0)\<rparr>"

text \<open>Successive calls of \<^verbatim>\<open>ensureBrowserActive\<close>, one world for each, with their results.\<close>

fun ensure_all :: "world list \<Rightarrow> bot_state \<Rightarrow> bool list \<times> bot_state" where
  "ensure_all [] st = ([], st)"
| "ensure_all (w # ws) st =
     (case ensureBrowserActive w st of
        (r, st1) \<Rightarrow> (case ensure_all ws st1 of (rs, st2) \<Rightarrow> (r # rs, st2)))"

text \<open>A body of a tick that throws at once.\<close>

definition throwing_body :: "bot_state \<Rightarrow> unit outcome \<times> bot_state" where
  "throwing_body st = (Raised, st)"

section \<open>Reading the effects\<close>

text \<open>
  The records handed to \<^verbatim>\<open>sendOTPToTelegram\<close> and the arrays written to the file, in
  order, as recorded in a list of effects; and those recorded between two states.
\<close>

fun dispatched :: "action list \<Rightarrow> sms list" where
  "dispatched [] = []"
| "dispatched (Call_sendOTPToTelegram m # as) = m # dispatched as"
| "dispatched (_ # as) = dispatched as"

fun written :: "action list \<Rightarrow> string list list" where
  "written [] = []"
| "written (WriteFile hashArray # as) = hashArray # written as"
| "written (_ # as) = written as"

fun attempted :: "action list \<Rightarrow> string list" where
  "attempted [] = []"
| "attempted (SendMessage chatId text ok # as) = chatId # attempted as"
| "attempted (_ # as) = attempted as"

definition new_dispatches :: "bot_state \<Rightarrow> bot_state \<Rightarrow> sms list" where
  "new_dispatches st st' = drop (length (dispatched (effects st))) (dispatched (effects st'))"


text \<open>
  The channels on which \<^verbatim>\<open>bot.sendMessage\<close> was called between two states, and those on
  which the call succeeded.
\<close>

fun succeeded :: "action list \<Rightarrow> string list" where
  "succeeded [] = []"
| "succeeded (SendMessage chatId text ok # as) =
     (if ok then chatId # succeeded as else succeeded as)"
| "succeeded (_ # as) = succeeded as"



text \<open>
  The loop of \<^verbatim>\<open>pollSMSAPI\<close> seen from the set alone: the set it leaves, and the records
  it hands to \<^verbatim>\<open>sendOTPToTelegram\<close>.
\<close>

fun loop_set :: "string list \<Rightarrow> sms list \<Rightarrow> string list" where
  "loop_set s [] = s"
| "loop_set s (m # messages) =
     (if set_has s (hash m) then loop_set s messages
      else loop_set (remember s (hash m)) messages)"

fun loop_new :: "string list \<Rightarrow> sms list \<Rightarrow> sms list" where
  "loop_new s [] = []"
| "loop_new s (m # messages) =
     (if set_has s (hash m) then loop_new s messages
      else m # loop_new (remember s (hash m)) messages)"

section \<open>Properties of the set operations\<close>

lemma set_add_set [simp]: "set (set_add s x) = insert x (set s)"
  by (auto simp: set_add_def set_has_def)

lemma set_add_distinct [simp]: "distinct s \<Longrightarrow> distinct (set_add s x)"
  by (simp add: set_add_def set_has_def)

lemma set_add_fresh: "x \<notin> set s \<Longrightarrow> set_add s x = s @ [x]"
  by (simp add: set_add_def set_has_def)

lemma set_add_old: "x \<in> set s \<Longrightarrow> set_add s x = s"
  by (simp add: set_add_def set_has_def)

lemma length_set_add: "length (set_add s x) \<le> Suc (length s)"
  by (simp add: set_add_def)

lemma foldl_set_add_distinct: "distinct acc \<Longrightarrow> distinct (foldl set_add acc xs)"
  by (induction xs arbitrary: acc) simp_all

lemma foldl_set_add_append:
  "distinct (acc @ xs) \<Longrightarrow> foldl set_add acc xs = acc @ xs"
proof (induction xs arbitrary: acc)
  case Nil
  then show ?case by simp
next
  case (Cons x xs)
  from Cons.prems have fresh: "x \<notin> set acc" and rest: "distinct ((acc @ [x]) @ xs)"
    by auto
  show ?case
    using Cons.IH [OF rest] fresh by (simp add: set_add_fresh)
qed

lemma foldl_set_add_length: "length (foldl set_add acc xs) \<le> length acc + length xs"
proof (induction xs arbitrary: acc)
  case Nil
  then show ?case by simp
next
  case (Cons x xs)
  have "length (foldl set_add (set_add acc x) xs) \<le> length (set_add acc x) + length xs"
    by (rule Cons.IH)
  also have "\<dots> \<le> Suc (length acc) + length xs"
    using length_set_add [of acc x] by simp
  finally show ?case by simp
qed

lemma new_Set_distinct [simp]: "distinct (new_Set xs)"
  by (simp add: new_Set_def foldl_set_add_distinct)

lemma new_Set_id: "distinct xs \<Longrightarrow> new_Set xs = xs"
  using foldl_set_add_append [of "[]" xs] by (simp add: new_Set_def)

lemma new_Set_length: "length (new_Set xs) \<le> length xs"
  using foldl_set_add_length [of "[]" xs] by (simp add: new_Set_def)

lemma slice_last_length [simp]: "length (slice_last k xs) = min k (length xs)"
  by (simp add: slice_last_def)

lemma slice_last_distinct: "distinct xs \<Longrightarrow> distinct (slice_last k xs)"
  by (simp add: slice_last_def)

lemma slice_last_suffix: "suffix (slice_last k xs) xs"
  by (simp add: slice_last_def suffix_drop)

lemma slice_last_short: "length xs \<le> k \<Longrightarrow> slice_last k xs = xs"
  by (simp add: slice_last_def)

lemma remember_distinct: "distinct s \<Longrightarrow> distinct (remember s h)"
  by (simp add: remember_def Let_def)

lemma remember_length: "length (remember s h) \<le> MAX_STORED_HASHES"
proof (cases "length (set_add s h) > MAX_STORED_HASHES")
  case True
  have "length (new_Set (slice_last 500 (set_add s h))) \<le> 500"
    using new_Set_length [of "slice_last 500 (set_add s h)"] by simp
  with True show ?thesis by (simp add: remember_def Let_def MAX_STORED_HASHES_def)
next
  case False
  then show ?thesis by (simp add: remember_def Let_def)
qed

lemma remember_suffix: "distinct s \<Longrightarrow> suffix (remember s h) (set_add s h)"
  by (simp add: remember_def Let_def new_Set_id slice_last_distinct slice_last_suffix)

lemma remember_no_overflow:
  "length (set_add s h) \<le> MAX_STORED_HASHES \<Longrightarrow> remember s h = set_add s h"
  by (simp add: remember_def Let_def)

lemma remember_overflow:
  assumes "distinct s" "length s \<le> MAX_STORED_HASHES"
    "length (set_add s h) > MAX_STORED_HASHES"
  shows "remember s h = drop 501 (s @ [h])" "length (remember s h) = 500"
proof -
  have fresh: "h \<notin> set s"
    using assms(2,3) by (auto simp: set_add_def set_has_def split: if_splits)
  then have add: "set_add s h = s @ [h]" by (rule set_add_fresh)
  with assms(2,3) have len: "length s = 1000"
    by (simp add: MAX_STORED_HASHES_def)
  have d: "distinct (s @ [h])" using assms(1) fresh by simp
  have "remember s h = new_Set (slice_last 500 (s @ [h]))"
    using assms(3) add by (simp add: remember_def Let_def)
  also have "\<dots> = slice_last 500 (s @ [h])"
    by (rule new_Set_id) (rule slice_last_distinct [OF d])
  finally have r: "remember s h = slice_last 500 (s @ [h])" .
  show "remember s h = drop 501 (s @ [h])"
    using r len by (simp add: slice_last_def)
  show "length (remember s h) = 500"
    using r len by simp
qed

section \<open>What the functions leave unchanged\<close>

lemma bot_sendMessage_state:
  "snd (bot_sendMessage ok c t st) = emit (SendMessage c t (ok c)) st"
  by (simp add: bot_sendMessage_def)

lemma send_to_channels_result:
  "send_to_channels ok t chats st =
     (Returned (), st\<lparr>effects := effects st @ map (\<lambda>c. SendMessage c t (ok c)) chats\<rparr>)"
proof (induction chats arbitrary: st)
  case Nil
  then show ?case by simp
next
  case (Cons c chats)
  show ?case
    by (cases "ok c") (simp_all add: bot_sendMessage_def emit_def Cons.IH)
qed

lemma sendOTPToTelegram_on_result:
  "sendOTPToTelegram_on chats ok m st =
     (Returned (),
      st\<lparr>effects := effects st @ Call_sendOTPToTelegram m
             # map (\<lambda>c. SendMessage c (format_otp m) (ok c)) chats\<rparr>)"
  by (simp add: sendOTPToTelegram_on_def send_to_channels_result emit_def)

lemma sendOTP_hashes [simp]:
  "sentMessageHashes (snd (sendOTPToTelegram ok m st)) = sentMessageHashes st"
  by (simp add: sendOTPToTelegram_def sendOTPToTelegram_on_result)

lemma sample_hash_inj: "sample_hash m = sample_hash n \<Longrightarrow> m = n"
proof -
  assume "sample_hash m = sample_hash n"
  then have "length (sample_hash m) = length (sample_hash n)" by simp
  then show "m = n" by (simp add: sample_hash_def)
qed

lemma sample_hashes_distinct [simp]: "distinct (sample_hashes k)"
  by (auto simp: sample_hashes_def distinct_map inj_on_def dest: sample_hash_inj)

lemma sample_hashes_length [simp]: "length (sample_hashes k) = k"
  by (simp add: sample_hashes_def)

lemma sample_hash_mem [simp]: "sample_hash n \<in> set (sample_hashes k) \<longleftrightarrow> n < k"
  by (auto simp: sample_hashes_def dest: sample_hash_inj)

lemma initializeBrowser_keeps [simp]:
  "sentMessageHashes (snd (initializeBrowser w st)) = sentMessageHashes st"
  "messages_file (snd (initializeBrowser w st)) = messages_file st"
  "isPolling (snd (initializeBrowser w st)) = isPolling st"
  "pollCount (snd (initializeBrowser w st)) = pollCount st"
  by (simp_all add: initializeBrowser_def Let_def emit_def split: option.splits)

lemma ensureBrowserActive_keeps [simp]:
  "sentMessageHashes (snd (ensureBrowserActive w st)) = sentMessageHashes st"
  "messages_file (snd (ensureBrowserActive w st)) = messages_file st"
  "isPolling (snd (ensureBrowserActive w st)) = isPolling st"
  "pollCount (snd (ensureBrowserActive w st)) = pollCount st"
  by (simp_all add: ensureBrowserActive_def Let_def emit_def)

lemma fetchLatestSMS_keeps [simp]:
  "sentMessageHashes (snd (fetchLatestSMS md5 w st)) = sentMessageHashes st"
  "messages_file (snd (fetchLatestSMS md5 w st)) = messages_file st"
  "isPolling (snd (fetchLatestSMS md5 w st)) = isPolling st"
  "pollCount (snd (fetchLatestSMS md5 w st)) = pollCount st"
proof -
  obtain b st1 where e: "ensureBrowserActive w st = (b, st1)"
    by (cases "ensureBrowserActive w st")
  have k: "sentMessageHashes st1 = sentMessageHashes st" "messages_file st1 = messages_file st"
    "isPolling st1 = isPolling st" "pollCount st1 = pollCount st"
    using ensureBrowserActive_keeps [of w st] by (simp_all add: e)
  show "sentMessageHashes (snd (fetchLatestSMS md5 w st)) = sentMessageHashes st"
    by (simp add: fetchLatestSMS_def e Let_def emit_def k split: option.splits)
  show "messages_file (snd (fetchLatestSMS md5 w st)) = messages_file st"
    by (simp add: fetchLatestSMS_def e Let_def emit_def k split: option.splits)
  show "isPolling (snd (fetchLatestSMS md5 w st)) = isPolling st"
    by (simp add: fetchLatestSMS_def e Let_def emit_def k split: option.splits)
  show "pollCount (snd (fetchLatestSMS md5 w st)) = pollCount st"
    by (simp add: fetchLatestSMS_def e Let_def emit_def k split: option.splits)
qed

lemma sendOTP_keeps [simp]:
  "messages_file (snd (sendOTPToTelegram ok m st)) = messages_file st"
  "isPolling (snd (sendOTPToTelegram ok m st)) = isPolling st"
  "pollCount (snd (sendOTPToTelegram ok m st)) = pollCount st"
  by (simp_all add: sendOTPToTelegram_def sendOTPToTelegram_on_result)

lemma deliver_new_keeps [simp]:
  "messages_file (fst (deliver_new w ms (st, n))) = messages_file st"
  "isPolling (fst (deliver_new w ms (st, n))) = isPolling st"
  "pollCount (fst (deliver_new w ms (st, n))) = pollCount st"
  by (induction ms arbitrary: st n; simp add: Let_def)+

lemma deliver_new_length:
  "length (sentMessageHashes st) \<le> MAX_STORED_HASHES \<Longrightarrow>
   length (sentMessageHashes (fst (deliver_new w ms (st, n)))) \<le> MAX_STORED_HASHES"
  by (induction ms arbitrary: st n) (simp_all add: Let_def remember_length)

lemma deliver_new_distinct:
  "distinct (sentMessageHashes st) \<Longrightarrow>
   distinct (sentMessageHashes (fst (deliver_new w ms (st, n))))"
  by (induction ms arbitrary: st n) (simp_all add: Let_def remember_distinct)

lemma saveSentMessages_hashes [simp]:
  "sentMessageHashes (saveSentMessages w st) = sentMessageHashes st"
  by (simp add: saveSentMessages_def Let_def emit_def)

lemma saveSentMessages_file:
  "messages_file (saveSentMessages w st) =
     (if writeFile_ok w then Json_array (slice_last MAX_STORED_HASHES (sentMessageHashes st))
      else messages_file st)"
  by (simp add: saveSentMessages_def Let_def emit_def)

lemma within_cap_save: "within_cap st \<Longrightarrow> within_cap (saveSentMessages w st)"
  by (simp add: within_cap_def saveSentMessages_file)

lemma within_cap_load: "within_cap st \<Longrightarrow> within_cap (loadSentMessages st)"
  using new_Set_length
  by (auto simp: within_cap_def loadSentMessages_def split: snapshot_file.splits intro: order_trans)

lemma distinct_load:
  "distinct (sentMessageHashes st) \<Longrightarrow> distinct (sentMessageHashes (loadSentMessages st))"
  by (simp add: loadSentMessages_def split: snapshot_file.splits)

lemma poll_body_hashes:
  "sentMessageHashes (snd (poll_body md5 w st)) =
     sentMessageHashes (fst (deliver_new w (fst (fetchLatestSMS md5 w st))
        (snd (fetchLatestSMS md5 w st), 0)))"
  by (cases "fetchLatestSMS md5 w st")
     (auto simp: poll_body_def Let_def split: prod.splits)

lemma poll_body_within_cap: "within_cap st \<Longrightarrow> within_cap (snd (poll_body md5 w st))"
proof -
  assume a: "within_cap st"
  obtain ms st1 where f: "fetchLatestSMS md5 w st = (ms, st1)"
    by (cases "fetchLatestSMS md5 w st")
  have k: "sentMessageHashes st1 = sentMessageHashes st" "messages_file st1 = messages_file st"
    using fetchLatestSMS_keeps [of md5 w st] by (simp_all add: f)
  then have c1: "within_cap st1" using a by (simp add: within_cap_def)
  obtain st2 n where d: "deliver_new w ms (st1, 0) = (st2, n)"
    by (cases "deliver_new w ms (st1, 0)")
  have "length (sentMessageHashes st2) \<le> MAX_STORED_HASHES"
    using deliver_new_length [of st1 w ms 0] c1 by (simp add: d within_cap_def)
  moreover have "messages_file st2 = messages_file st1"
    using deliver_new_keeps(1) [of w ms st1 0] by (simp add: d)
  ultimately have c2: "within_cap st2" using c1 by (simp add: within_cap_def)
  show ?thesis
    by (simp add: poll_body_def f d c1 c2 within_cap_save)
qed

lemma poll_body_distinct:
  "distinct (sentMessageHashes st) \<Longrightarrow> distinct (sentMessageHashes (snd (poll_body md5 w st)))"
  by (simp add: poll_body_hashes deliver_new_distinct)

lemma poll_frame_exit:
  "\<not> isPolling st \<Longrightarrow> poll_frame body st = poll_exit (snd (body (poll_enter st)))"
  by (cases "body (poll_enter st)") (auto simp: poll_frame_def split: outcome.splits)

lemma within_cap_flags [simp]:
  "within_cap (poll_enter st) = within_cap st" "within_cap (poll_exit st) = within_cap st"
  by (simp_all add: within_cap_def poll_enter_def poll_exit_def)

lemma within_cap_poll: "within_cap st \<Longrightarrow> within_cap (pollSMSAPI md5 w st)"
  by (cases "isPolling st")
     (simp_all add: pollSMSAPI_def poll_frame_exit poll_body_within_cap, simp add: poll_frame_def)

lemma distinct_poll:
  "distinct (sentMessageHashes st) \<Longrightarrow> distinct (sentMessageHashes (pollSMSAPI md5 w st))"
proof (cases "isPolling st")
  case True
  assume "distinct (sentMessageHashes st)"
  with True show ?thesis by (simp add: pollSMSAPI_def poll_frame_def)
next
  case False
  assume "distinct (sentMessageHashes st)"
  then have "distinct (sentMessageHashes (snd (poll_body md5 w (poll_enter st))))"
    by (intro poll_body_distinct) (simp add: poll_enter_def)
  with False show ?thesis
    by (simp add: pollSMSAPI_def poll_frame_exit poll_exit_def)
qed

lemma perform_inv:
  "within_cap st \<and> distinct (sentMessageHashes st) \<Longrightarrow>
   within_cap (perform md5 st op) \<and> distinct (sentMessageHashes (perform md5 st op))"
  by (cases op) (simp_all add: within_cap_load distinct_load within_cap_poll distinct_poll
      within_cap_save)

lemma run_inv:
  "within_cap st \<and> distinct (sentMessageHashes st) \<Longrightarrow>
   within_cap (run md5 ops st) \<and> distinct (sentMessageHashes (run md5 ops st))"
  unfolding run_def
proof (induction ops arbitrary: st)
  case Nil
  then show ?case by simp
next
  case (Cons op ops)
  show ?case
    using Cons.IH [OF perform_inv [OF Cons.prems]] by simp
qed

lemma deliver_new_one_suffix:
  assumes "distinct (sentMessageHashes st)"
  shows "suffix (sentMessageHashes (fst (deliver_new w [m] (st, n))))
           (set_add (sentMessageHashes st) (hash m))"
proof (cases "set_has (sentMessageHashes st) (hash m)")
  case True
  then show ?thesis by (simp add: set_add_def)
next
  case False
  then show ?thesis
    using remember_suffix [OF assms, of "hash m"] by (simp add: Let_def)
qed

section \<open>The cap on the set of hashes\<close>

text \<open>
  Claim C10. When adding a hash makes a set that was within the cap of 1000 exceed it, the
  loop of \<^verbatim>\<open>pollSMSAPI\<close> at once replaces the set by its most recent 500 entries: the
  oldest 501 of the 1001 are dropped together, and the set then holds exactly 500 hashes.
\<close>

theorem overflow_keeps_last_500:
  assumes "distinct (sentMessageHashes st)"
    and "length (sentMessageHashes st) \<le> MAX_STORED_HASHES"
    and "length (set_add (sentMessageHashes st) (hash m)) > MAX_STORED_HASHES"
  shows "sentMessageHashes (fst (deliver_new w [m] (st, n)))
           = drop 501 (sentMessageHashes st @ [hash m])
       \<and> length (sentMessageHashes (fst (deliver_new w [m] (st, n)))) = 500"
proof -
  have fresh: "\<not> set_has (sentMessageHashes st) (hash m)"
    using assms(2,3) by (auto simp: set_add_def split: if_splits)
  then have "sentMessageHashes (fst (deliver_new w [m] (st, n)))
      = remember (sentMessageHashes st) (hash m)"
    by (simp add: Let_def)
  then show ?thesis
    using remember_overflow [OF assms] by simp
qed

theorem overflow_keeps_last_500_witness:
  "length (sentMessageHashes (fst (deliver_new calm_world [sample_sms 1000]
      ((start_state No_file)\<lparr>sentMessageHashes := sample_hashes 1000\<rparr>, 0)))) = 500"
  using overflow_keeps_last_500 [of "(start_state No_file)\<lparr>sentMessageHashes := sample_hashes 1000\<rparr>"
      "sample_sms 1000" calm_world 0]
  by (simp add: MAX_STORED_HASHES_def set_add_fresh sample_sms_def)

text \<open>
  Claim C2, as the code has it. The set read by \<^verbatim>\<open>loadSentMessages\<close> is the whole array of
  the file, whatever its length: a file of 1001 different strings gives a set of 1001
  entries, above the cap.
\<close>

theorem load_exceeds_cap:
  "\<not> length (sentMessageHashes (loadSentMessages (start_state (Json_array (sample_hashes 1001)))))
       \<le> MAX_STORED_HASHES"
  by (simp add: loadSentMessages_def start_state_def new_Set_id MAX_STORED_HASHES_def)

text \<open>
  Claim C2, amended. If the set is within the cap and the file, when there is one, holds
  at most \<open>MAX_STORED_HASHES\<close> entries (as every file written by \<^verbatim>\<open>saveSentMessages\<close>
  does), then after every sequence of loads, ticks and saves the set and the file are
  within the cap; and each step of the loop leaves a suffix of the set with the hash added,
  so that the entries evicted are the ones inserted first.
\<close>

theorem ledger_within_cap:
  assumes "within_cap st" and "distinct (sentMessageHashes st)"
  shows "within_cap (run md5 ops st)
       \<and> (\<forall>w m n. suffix (sentMessageHashes (fst (deliver_new w [m] (run md5 ops st, n))))
                    (set_add (sentMessageHashes (run md5 ops st)) (hash m)))"
proof -
  have inv: "within_cap (run md5 ops st) \<and> distinct (sentMessageHashes (run md5 ops st))"
    using run_inv [of st md5 ops] assms by simp
  then show ?thesis
    using deliver_new_one_suffix [of "run md5 ops st"] by blast
qed

theorem ledger_within_cap_witness:
  "within_cap (run sample_digest [Op_load, Op_poll calm_world, Op_save calm_world]
      (start_state (Json_array (sample_hashes 3))))"
  using ledger_within_cap [of "start_state (Json_array (sample_hashes 3))"
      sample_digest "[Op_load, Op_poll calm_world, Op_save calm_world]"]
  by (simp add: within_cap_def start_state_def MAX_STORED_HASHES_def)

text \<open>
  Claim C8. When the write succeeds, the file holds the last \<open>MAX_STORED_HASHES\<close> entries
  of the set in their order; a process restarted on that file has exactly these entries
  as its set, which is the whole set that was saved when that one was within the cap.
\<close>

theorem persist_load_roundtrip:
  assumes "distinct (sentMessageHashes st)" and "writeFile_ok w"
  shows "messages_file (saveSentMessages w st)
           = Json_array (slice_last MAX_STORED_HASHES (sentMessageHashes st))
       \<and> sentMessageHashes (restart (saveSentMessages w st))
           = slice_last MAX_STORED_HASHES (sentMessageHashes st)
       \<and> (length (sentMessageHashes st) \<le> MAX_STORED_HASHES \<longrightarrow>
            sentMessageHashes (restart (saveSentMessages w st)) = sentMessageHashes st)"
proof -
  have f: "messages_file (saveSentMessages w st)
      = Json_array (slice_last MAX_STORED_HASHES (sentMessageHashes st))"
    using assms(2) by (simp add: saveSentMessages_file)
  have "sentMessageHashes (restart (saveSentMessages w st))
      = new_Set (slice_last MAX_STORED_HASHES (sentMessageHashes st))"
    by (simp add: restart_def loadSentMessages_def start_state_def f)
  then have r: "sentMessageHashes (restart (saveSentMessages w st))
      = slice_last MAX_STORED_HASHES (sentMessageHashes st)"
    by (simp add: new_Set_id slice_last_distinct assms(1))
  show ?thesis
    using f r by (simp add: slice_last_short)
qed

theorem persist_load_roundtrip_witness:
  "sentMessageHashes (restart (saveSentMessages calm_world
      ((start_state No_file)\<lparr>sentMessageHashes := sample_hashes 3\<rparr>))) = sample_hashes 3"
  using persist_load_roundtrip [of "(start_state No_file)\<lparr>sentMessageHashes := sample_hashes 3\<rparr>"
      calm_world]
  by (simp add: calm_world_def MAX_STORED_HASHES_def slice_last_def)

section \<open>The regular expression of the captcha\<close>

lemma digit_not_space: "is_digit c \<Longrightarrow> \<not> is_space c"
proof -
  assume "is_digit c"
  then have lo: "0x30 \<le> c" and hi: "c \<le> 0x39"
    by (simp_all add: is_digit_def)
  have "\<not> 0x2000 \<le> c"
  proof
    assume "0x2000 \<le> c"
    then have "(0x2000 :: code_unit) \<le> 0x39" using hi by (rule order_trans)
    then show False by simp
  qed
  with lo hi show ?thesis by (auto simp: is_space_def)
qed

lemma plus_not_digit [simp]: "\<not> is_digit PLUS"
  by (simp add: is_digit_def PLUS_def)

lemma plus_not_space [simp]: "\<not> is_space PLUS"
  by (simp add: is_space_def PLUS_def)

lemma takeWhile_spaces_plus:
  "list_all is_space w \<Longrightarrow> takeWhile is_digit (w @ PLUS # r) = []"
  by (cases w) (auto dest: digit_not_space)

lemma dropWhile_spaces_plus:
  "list_all is_space w \<Longrightarrow> dropWhile is_space (w @ PLUS # r) = PLUS # r"
  by (simp add: list_all_iff)

lemma dropWhile_spaces_digits:
  "list_all is_space w \<Longrightarrow> list_all is_digit g \<Longrightarrow> g \<noteq> [] \<Longrightarrow>
   dropWhile is_space (w @ g @ r) = g @ r"
  by (cases g) (auto simp: list_all_iff dest: digit_not_space)

lemma match_here_complete:
  assumes "list_all is_digit g1" "g1 \<noteq> []" "list_all is_space w1" "list_all is_space w2"
    "list_all is_digit g2" "g2 \<noteq> []"
  shows "match_here (g1 @ w1 @ PLUS # w2 @ g2 @ post) = Some (g1, g2 @ takeWhile is_digit post)"
proof -
  let ?s = "g1 @ w1 @ PLUS # w2 @ g2 @ post"
  have d1: "\<forall>c\<in>set g1. is_digit c" "\<forall>c\<in>set g2. is_digit c"
    using assms by (simp_all add: list_all_iff)
  have t1: "takeWhile is_digit ?s = g1"
    using d1 takeWhile_spaces_plus [OF assms(3)] by simp
  have r1: "dropWhile is_digit ?s = w1 @ PLUS # w2 @ g2 @ post"
    using d1 takeWhile_spaces_plus [OF assms(3), of "w2 @ g2 @ post"]
    by (simp add: dropWhile_eq_self_iff takeWhile_eq_Nil_iff)
  have r2: "dropWhile is_space (w1 @ PLUS # w2 @ g2 @ post) = PLUS # w2 @ g2 @ post"
    by (rule dropWhile_spaces_plus [OF assms(3)])
  have r3: "dropWhile is_space (w2 @ g2 @ post) = g2 @ post"
    by (rule dropWhile_spaces_digits [OF assms(4,5,6)])
  have t2: "takeWhile is_digit (g2 @ post) = g2 @ takeWhile is_digit post"
    using d1 by simp
  show ?thesis
    using assms(2,6) by (simp add: match_here_def Let_def t1 r1 r2 r3 t2)
qed

lemma match_here_sound:
  assumes "match_here s = Some (g1, g2)"
  shows "\<exists>w1 w2 post. s = g1 @ w1 @ PLUS # w2 @ g2 @ post \<and> g1 \<noteq> [] \<and> g2 \<noteq> []
      \<and> list_all is_digit g1 \<and> list_all is_digit g2
      \<and> list_all is_space w1 \<and> list_all is_space w2"
proof -
  let ?r1 = "dropWhile is_digit s"
  from assms have g1: "g1 = takeWhile is_digit s" "g1 \<noteq> []"
    by (auto simp: match_here_def Let_def split: if_splits list.splits)
  from assms obtain s2 where s2: "dropWhile is_space ?r1 = PLUS # s2"
    by (auto simp: match_here_def Let_def split: if_splits list.splits)
  from assms s2 have g2: "g2 = takeWhile is_digit (dropWhile is_space s2)" "g2 \<noteq> []"
    by (auto simp: match_here_def Let_def split: if_splits list.splits)
  let ?w1 = "takeWhile is_space ?r1"
  let ?w2 = "takeWhile is_space s2"
  let ?post = "dropWhile is_digit (dropWhile is_space s2)"
  have "s = g1 @ ?r1" by (simp add: g1)
  also have "?r1 = ?w1 @ dropWhile is_space ?r1" by simp
  also have "dropWhile is_space ?r1 = PLUS # s2" by (rule s2)
  also have "s2 = ?w2 @ dropWhile is_space s2" by simp
  also have "dropWhile is_space s2 = g2 @ ?post" by (simp add: g2)
  finally have "s = g1 @ ?w1 @ PLUS # ?w2 @ g2 @ ?post" .
  moreover have "list_all is_digit g1" "list_all is_digit g2"
    by (auto simp: g1 g2 list_all_iff dest: set_takeWhileD)
  moreover have "list_all is_space ?w1" "list_all is_space ?w2"
    by (auto simp: list_all_iff dest: set_takeWhileD)
  ultimately show ?thesis using g1(2) g2(2) by blast
qed

lemma regex_match_sound:
  "regex_match t = Some (g1, g2) \<Longrightarrow>
   \<exists>pre w1 w2 post. t = pre @ g1 @ w1 @ PLUS # w2 @ g2 @ post \<and> g1 \<noteq> [] \<and> g2 \<noteq> []
      \<and> list_all is_digit g1 \<and> list_all is_digit g2
      \<and> list_all is_space w1 \<and> list_all is_space w2"
proof (induction t)
  case Nil
  then show ?case by (simp add: match_here_def)
next
  case (Cons c cs)
  show ?case
  proof (cases "match_here (c # cs)")
    case None
    with Cons.prems have "regex_match cs = Some (g1, g2)" by simp
    from Cons.IH [OF this] obtain pre w1 w2 post where
      "cs = pre @ g1 @ w1 @ PLUS # w2 @ g2 @ post \<and> g1 \<noteq> [] \<and> g2 \<noteq> []
        \<and> list_all is_digit g1 \<and> list_all is_digit g2
        \<and> list_all is_space w1 \<and> list_all is_space w2"
      by blast
    then have "c # cs = (c # pre) @ g1 @ w1 @ PLUS # w2 @ g2 @ post \<and> g1 \<noteq> [] \<and> g2 \<noteq> []
        \<and> list_all is_digit g1 \<and> list_all is_digit g2
        \<and> list_all is_space w1 \<and> list_all is_space w2"
      by simp
    then show ?thesis by blast
  next
    case (Some m)
    with Cons.prems have "match_here (c # cs) = Some (g1, g2)" by simp
    from match_here_sound [OF this] obtain w1 w2 post where
      "c # cs = [] @ g1 @ w1 @ PLUS # w2 @ g2 @ post \<and> g1 \<noteq> [] \<and> g2 \<noteq> []
        \<and> list_all is_digit g1 \<and> list_all is_digit g2
        \<and> list_all is_space w1 \<and> list_all is_space w2"
      by auto
    then show ?thesis by blast
  qed
qed

lemma regex_match_append: "regex_match s \<noteq> None \<Longrightarrow> regex_match (pre @ s) \<noteq> None"
proof (induction pre)
  case Nil
  then show ?case by simp
next
  case (Cons c pre)
  then show ?case by (cases "match_here (c # pre @ s)") simp_all
qed

lemma regex_match_here: "match_here s \<noteq> None \<Longrightarrow> regex_match s \<noteq> None"
  by (cases s) auto

lemma regex_match_None_iff: "regex_match t = None \<longleftrightarrow> \<not> challenge_in t"
proof
  assume n: "regex_match t = None"
  show "\<not> challenge_in t"
  proof
    assume "challenge_in t"
    then obtain pre g1 w1 w2 g2 post where
      t: "t = pre @ g1 @ w1 @ PLUS # w2 @ g2 @ post" and
      a: "g1 \<noteq> []" "g2 \<noteq> []" "list_all is_digit g1" "list_all is_digit g2"
         "list_all is_space w1" "list_all is_space w2"
      unfolding challenge_in_def by blast
    have "match_here (g1 @ w1 @ PLUS # w2 @ g2 @ post) \<noteq> None"
      using match_here_complete [OF a(3) a(1) a(5) a(6) a(4) a(2), of post] by simp
    then have "regex_match (pre @ g1 @ w1 @ PLUS # w2 @ g2 @ post) \<noteq> None"
      by (intro regex_match_append regex_match_here)
    with n t show False by simp
  qed
next
  assume c: "\<not> challenge_in t"
  show "regex_match t = None"
  proof (rule ccontr)
    assume "regex_match t \<noteq> None"
    then obtain g1 g2 where "regex_match t = Some (g1, g2)" by auto
    from regex_match_sound [OF this] have "challenge_in t"
      unfolding challenge_in_def by blast
    with c show False by simp
  qed
qed

text \<open>The match is the leftmost one, and each group takes all the digits there are.\<close>

lemma match_here_Nil [simp]: "match_here [] = None"
  by (simp add: match_here_def)

lemma takeWhile_dropWhile_Nil: "takeWhile P (dropWhile P xs) = []"
  by (induction xs) simp_all

lemma match_here_at:
  "match_here s = Some (g1, g2) \<Longrightarrow> challenge_at s g1 g2"
proof -
  assume a: "match_here s = Some (g1, g2)"
  let ?r1 = "dropWhile is_digit s"
  from a have g1: "g1 = takeWhile is_digit s" "g1 \<noteq> []"
    by (auto simp: match_here_def Let_def split: if_splits list.splits)
  from a obtain s2 where s2: "dropWhile is_space ?r1 = PLUS # s2"
    by (auto simp: match_here_def Let_def split: if_splits list.splits)
  from a s2 have g2: "g2 = takeWhile is_digit (dropWhile is_space s2)" "g2 \<noteq> []"
    by (auto simp: match_here_def Let_def split: if_splits list.splits)
  let ?w1 = "takeWhile is_space ?r1"
  let ?w2 = "takeWhile is_space s2"
  let ?post = "dropWhile is_digit (dropWhile is_space s2)"
  have "s = g1 @ ?r1" by (simp add: g1)
  also have "?r1 = ?w1 @ dropWhile is_space ?r1" by simp
  also have "dropWhile is_space ?r1 = PLUS # s2" by (rule s2)
  also have "s2 = ?w2 @ dropWhile is_space s2" by simp
  also have "dropWhile is_space s2 = g2 @ ?post" by (simp add: g2)
  finally have "s = g1 @ ?w1 @ PLUS # ?w2 @ g2 @ ?post" .
  moreover have "list_all is_digit g1" "list_all is_digit g2"
    by (auto simp: g1 g2 list_all_iff dest: set_takeWhileD)
  moreover have "list_all is_space ?w1" "list_all is_space ?w2"
    by (auto simp: list_all_iff dest: set_takeWhileD)
  moreover have "takeWhile is_digit ?post = []"
    by (rule takeWhile_dropWhile_Nil)
  ultimately show ?thesis
    unfolding challenge_at_def using g1(2) g2(2) by blast
qed

lemma match_here_iff: "match_here s = Some (g1, g2) \<longleftrightarrow> challenge_at s g1 g2"
proof
  assume "match_here s = Some (g1, g2)"
  then show "challenge_at s g1 g2" by (rule match_here_at)
next
  assume "challenge_at s g1 g2"
  then obtain w1 w2 post where
    s: "s = g1 @ w1 @ PLUS # w2 @ g2 @ post" and
    a: "g1 \<noteq> []" "g2 \<noteq> []" "list_all is_digit g1" "list_all is_digit g2"
       "list_all is_space w1" "list_all is_space w2" and
    p: "takeWhile is_digit post = []"
    unfolding challenge_at_def by blast
  show "match_here s = Some (g1, g2)"
    using match_here_complete [OF a(3) a(1) a(5) a(6) a(4) a(2), of post] by (simp add: s p)
qed

lemma match_here_None_iff: "match_here s = None \<longleftrightarrow> (\<forall>a b. \<not> challenge_at s a b)"
proof
  assume "match_here s = None"
  then show "\<forall>a b. \<not> challenge_at s a b"
    by (simp add: match_here_iff [symmetric])
next
  assume n: "\<forall>a b. \<not> challenge_at s a b"
  show "match_here s = None"
  proof (cases "match_here s")
    case None
    then show ?thesis .
  next
    case (Some m)
    then have "challenge_at s (fst m) (snd m)"
      by (simp add: match_here_iff [symmetric])
    with n show ?thesis by blast
  qed
qed

lemma regex_match_leftmost:
  assumes "match_here s = Some m"
    and "\<forall>p1 p2. pre = p1 @ p2 \<and> p2 \<noteq> [] \<longrightarrow> match_here (p2 @ s) = None"
  shows "regex_match (pre @ s) = Some m"
  using assms(2)
proof (induction pre)
  case Nil
  from assms(1) show ?case by (cases s) simp_all
next
  case (Cons c pre)
  have here: "match_here ((c # pre) @ s) = None"
    using Cons.prems by blast
  have "\<forall>p1 p2. pre = p1 @ p2 \<and> p2 \<noteq> [] \<longrightarrow> match_here (p2 @ s) = None"
  proof (intro allI impI)
    fix p1 p2
    assume "pre = p1 @ p2 \<and> p2 \<noteq> []"
    then have "c # pre = (c # p1) @ p2 \<and> p2 \<noteq> []" by simp
    with Cons.prems show "match_here (p2 @ s) = None" by blast
  qed
  from Cons.IH [OF this] here show ?case by simp
qed

lemma regex_match_split:
  "regex_match t = Some m \<Longrightarrow>
   \<exists>pre s. t = pre @ s \<and> match_here s = Some m
     \<and> (\<forall>p1 p2. pre = p1 @ p2 \<and> p2 \<noteq> [] \<longrightarrow> match_here (p2 @ s) = None)"
proof (induction t)
  case Nil
  then show ?case by simp
next
  case (Cons c cs)
  show ?case
  proof (cases "match_here (c # cs)")
    case (Some m')
    with Cons.prems have "match_here (c # cs) = Some m" by simp
    then have "c # cs = [] @ (c # cs) \<and> match_here (c # cs) = Some m
        \<and> (\<forall>p1 p2. [] = p1 @ p2 \<and> p2 \<noteq> [] \<longrightarrow> match_here (p2 @ (c # cs)) = None)"
      by simp
    then show ?thesis by blast
  next
    case None
    with Cons.prems have "regex_match cs = Some m" by simp
    from Cons.IH [OF this] obtain pre s where
      t: "cs = pre @ s" and h: "match_here s = Some m" and
      e: "\<forall>p1 p2. pre = p1 @ p2 \<and> p2 \<noteq> [] \<longrightarrow> match_here (p2 @ s) = None"
      by blast
    have "\<forall>p1 p2. c # pre = p1 @ p2 \<and> p2 \<noteq> [] \<longrightarrow> match_here (p2 @ s) = None"
    proof (intro allI impI)
      fix p1 p2
      assume a: "c # pre = p1 @ p2 \<and> p2 \<noteq> []"
      show "match_here (p2 @ s) = None"
      proof (cases p1)
        case Nil
        with a have "p2 @ s = c # cs" by (simp add: t)
        with None show ?thesis by simp
      next
        case (Cons d p1')
        with a have "pre = p1' @ p2 \<and> p2 \<noteq> []" by simp
        with e show ?thesis by blast
      qed
    qed
    with t h have "c # cs = (c # pre) @ s \<and> match_here s = Some m
        \<and> (\<forall>p1 p2. c # pre = p1 @ p2 \<and> p2 \<noteq> [] \<longrightarrow> match_here (p2 @ s) = None)"
      by simp
    then show ?thesis by blast
  qed
qed

lemma regex_match_first: "regex_match t = Some (g1, g2) \<longleftrightarrow> first_challenge t g1 g2"
proof
  assume "regex_match t = Some (g1, g2)"
  from regex_match_split [OF this] obtain pre s where
    "t = pre @ s" "match_here s = Some (g1, g2)"
    "\<forall>p1 p2. pre = p1 @ p2 \<and> p2 \<noteq> [] \<longrightarrow> match_here (p2 @ s) = None"
    by blast
  then have "t = pre @ s \<and> challenge_at s g1 g2
      \<and> (\<forall>p1 p2 a b. pre = p1 @ p2 \<and> p2 \<noteq> [] \<longrightarrow> \<not> challenge_at (p2 @ s) a b)"
    by (simp add: match_here_iff [symmetric] match_here_None_iff)
  then show "first_challenge t g1 g2"
    unfolding first_challenge_def by blast
next
  assume "first_challenge t g1 g2"
  then obtain pre s where t: "t = pre @ s" and c: "challenge_at s g1 g2" and
    e: "\<forall>p1 p2 a b. pre = p1 @ p2 \<and> p2 \<noteq> [] \<longrightarrow> \<not> challenge_at (p2 @ s) a b"
    unfolding first_challenge_def by blast
  have h: "match_here s = Some (g1, g2)"
    using c by (simp add: match_here_iff)
  have "\<forall>p1 p2. pre = p1 @ p2 \<and> p2 \<noteq> [] \<longrightarrow> match_here (p2 @ s) = None"
    using e by (simp add: match_here_None_iff)
  from regex_match_leftmost [OF h this] show "regex_match t = Some (g1, g2)"
    by (simp add: t)
qed

text \<open>Trimming the text changes nothing for the match.\<close>

lemma spaces_no_digits: "list_all is_space ws \<Longrightarrow> takeWhile is_digit ws = []"
  by (cases ws) (auto dest: digit_not_space)

lemma takeWhile_digit_trailing:
  "list_all is_space ws \<Longrightarrow> takeWhile is_digit (x @ ws) = takeWhile is_digit x"
  by (induction x) (simp_all add: spaces_no_digits)

lemma dropWhile_digit_trailing:
  "list_all is_space ws \<Longrightarrow> dropWhile is_digit (x @ ws) = dropWhile is_digit x @ ws"
proof (induction x)
  case Nil
  then show ?case by (cases ws) (auto dest: digit_not_space)
next
  case (Cons c x)
  then show ?case by simp
qed

lemma dropWhile_space_trailing:
  "list_all is_space ws \<Longrightarrow>
   dropWhile is_space (y @ ws)
     = (if dropWhile is_space y = [] then [] else dropWhile is_space y @ ws)"
  by (induction y) (simp_all add: list_all_iff)

lemma match_here_trailing:
  assumes "list_all is_space ws"
  shows "match_here (x @ ws) = match_here x"
proof (cases "dropWhile is_space (dropWhile is_digit x)")
  case Nil
  show ?thesis
    by (simp add: match_here_def Let_def takeWhile_digit_trailing [OF assms]
        dropWhile_digit_trailing [OF assms] dropWhile_space_trailing [OF assms] Nil
        del: dropWhile_eq_Nil_conv)
next
  case (Cons c s2)
  have g2: "takeWhile is_digit (dropWhile is_space (s2 @ ws))
      = takeWhile is_digit (dropWhile is_space s2)"
  proof (cases "dropWhile is_space s2 = []")
    case True
    show ?thesis
      by (simp add: dropWhile_space_trailing [OF assms] True del: dropWhile_eq_Nil_conv)
  next
    case False
    show ?thesis
      by (simp add: dropWhile_space_trailing [OF assms] takeWhile_digit_trailing [OF assms] False
          del: dropWhile_eq_Nil_conv)
  qed
  show ?thesis
    by (simp add: match_here_def Let_def takeWhile_digit_trailing [OF assms]
        dropWhile_digit_trailing [OF assms] dropWhile_space_trailing [OF assms] Cons g2
        del: dropWhile_eq_Nil_conv)
qed

lemma regex_match_spaces: "list_all is_space ws \<Longrightarrow> regex_match ws = None"
proof (induction ws)
  case Nil
  then show ?case by simp
next
  case (Cons c ws)
  then have "\<not> is_digit c" by (auto dest: digit_not_space)
  then have "match_here (c # ws) = None" by (simp add: match_here_def)
  with Cons show ?case by simp
qed

lemma regex_match_trailing:
  assumes "list_all is_space ws"
  shows "regex_match (x @ ws) = regex_match x"
proof (induction x)
  case Nil
  show ?case by (simp add: regex_match_spaces [OF assms])
next
  case (Cons c x)
  have "match_here (c # x @ ws) = match_here (c # x)"
    using match_here_trailing [OF assms, of "c # x"] by simp
  with Cons show ?case by (simp split: option.splits)
qed

lemma regex_match_leading: "regex_match (dropWhile is_space s) = regex_match s"
proof (induction s)
  case Nil
  show ?case by simp
next
  case (Cons c s)
  show ?case
  proof (cases "is_space c")
    case True
    then have "\<not> is_digit c" by (auto dest: digit_not_space)
    then have "match_here (c # s) = None" by (simp add: match_here_def)
    with True Cons show ?thesis by simp
  next
    case False
    then show ?thesis by simp
  qed
qed

lemma regex_match_trim: "regex_match (trim s) = regex_match s"
proof -
  let ?u = "dropWhile is_space s"
  let ?ws = "rev (takeWhile is_space (rev ?u))"
  have "rev (takeWhile is_space (rev ?u) @ dropWhile is_space (rev ?u)) = ?u"
    by (simp only: takeWhile_dropWhile_id rev_rev_ident)
  then have "rev (dropWhile is_space (rev ?u)) @ ?ws = ?u"
    by (simp only: rev_append)
  then have u: "?u = trim s @ ?ws"
    unfolding trim_def by (rule sym)
  have sp: "list_all is_space ?ws"
    by (auto simp: list_all_iff dest: set_takeWhileD)
  have "regex_match (trim s) = regex_match (trim s @ ?ws)"
    by (rule regex_match_trailing [OF sp, symmetric])
  also have "\<dots> = regex_match ?u" using u by simp
  also have "\<dots> = regex_match s" by (rule regex_match_leading)
  finally show ?thesis .
qed

lemma decimal_snoc: "decimal (ds @ [c]) = 10 * decimal ds + digit_value c"
  by (simp add: decimal_def)

section \<open>The captcha solver\<close>

lemmas captcha_eval = ascii_def trim_def is_space_def is_digit_def match_here_def PLUS_def
  decimal_def digit_value_def parseInt_def

lemma to_number_small: "n < 2 ^ 53 \<Longrightarrow> to_number n = Finite n"
  by (simp add: to_number_def)

lemma number_add_small:
  "a + b < 2 ^ 53 \<Longrightarrow> number_add (to_number a) (to_number b) = Finite (a + b)"
proof -
  assume s: "a + b < 2 ^ 53"
  then have "a < 2 ^ 53" "b < 2 ^ 53" by simp_all
  with s show ?thesis by (simp add: to_number_small)
qed

lemma parseInt_digits: "list_all is_digit g \<Longrightarrow> parseInt g = to_number (decimal g)"
  by (simp add: parseInt_def list_all_iff takeWhile_eq_all_conv [THEN iffD2])

lemma challenge_in_iff: "challenge_in t \<longleftrightarrow> regex_match t \<noteq> None"
  by (simp add: regex_match_None_iff)

lemma solveMathCaptcha_None_iff:
  "solveMathCaptcha labels = None \<longleftrightarrow> (\<forall>el\<in>set labels. regex_match (trim el) = None)"
  by (induction labels) (auto split: option.splits)

lemma solveMathCaptcha_skip:
  "\<forall>el\<in>set before. regex_match (trim el) = None \<Longrightarrow>
   solveMathCaptcha (before @ rest) = solveMathCaptcha rest"
  by (induction before) simp_all

lemma challenge_in_trim: "challenge_in (trim el) \<longleftrightarrow> challenge_in el"
  by (simp add: challenge_in_iff regex_match_trim)

lemma first_challenge_trim: "first_challenge (trim el) a b \<longleftrightarrow> first_challenge el a b"
  by (simp add: regex_match_first [symmetric] regex_match_trim)

lemma digit_values:
  "map digit_value [0x30, 0x31, 0x32, 0x33, 0x34, 0x35, 0x36, 0x37, 0x38, 0x39]
     = [0, 1, 2, 3, 4, 5, 6, 7, 8, 9]"
  by (simp add: digit_value_def)

text \<open>
  Claim C9, amended. \<^verbatim>\<open>solveMathCaptcha\<close> is a function of the texts of the elements.
  The match in a text is the first challenge in it: the leftmost place where digits, a plus
  sign and digits stand, each operand being the whole run of digits, and trimming the text
  does not change it. The function returns \<^verbatim>\<open>null\<close> exactly when no element's text holds
  a challenge; otherwise, with \<open>a\<close> and \<open>b\<close> the operands of the first challenge in the
  first element that holds one, it returns the sum of their decimal values, when that sum
  is below \<open>2^53\<close>.
\<close>

theorem solveMathCaptcha_sum:
  "(regex_match t = Some (g1, g2) \<longleftrightarrow> first_challenge t g1 g2)
   \<and> (regex_match t = None \<longleftrightarrow> \<not> challenge_in t)
   \<and> (regex_match t = Some (g1, g2) \<longrightarrow>
        (\<exists>pre w1 w2 post. t = pre @ g1 @ w1 @ PLUS # w2 @ g2 @ post \<and> g1 \<noteq> [] \<and> g2 \<noteq> []
           \<and> list_all is_digit g1 \<and> list_all is_digit g2
           \<and> list_all is_space w1 \<and> list_all is_space w2))
   \<and> (challenge_in (trim t) \<longleftrightarrow> challenge_in t)
   \<and> (first_challenge (trim t) g1 g2 \<longleftrightarrow> first_challenge t g1 g2)
   \<and> (solveMathCaptcha labels = None \<longleftrightarrow> (\<forall>el\<in>set labels. \<not> challenge_in el))
   \<and> ((\<forall>el\<in>set before. \<not> challenge_in el) \<and> first_challenge el a b
        \<and> decimal a + decimal b < 2 ^ 53 \<longrightarrow>
        solveMathCaptcha (before @ el # after) = Some (Finite (decimal a + decimal b)))
   \<and> decimal [] = 0
   \<and> decimal (ds @ [c]) = 10 * decimal ds + digit_value c
   \<and> map digit_value [0x30, 0x31, 0x32, 0x33, 0x34, 0x35, 0x36, 0x37, 0x38, 0x39]
       = [0, 1, 2, 3, 4, 5, 6, 7, 8, 9]"
proof (intro conjI impI)
  show "regex_match t = Some (g1, g2) \<longleftrightarrow> first_challenge t g1 g2"
    by (rule regex_match_first)
  show "regex_match t = None \<longleftrightarrow> \<not> challenge_in t"
    by (rule regex_match_None_iff)
  show "challenge_in (trim t) \<longleftrightarrow> challenge_in t"
    by (rule challenge_in_trim)
  show "first_challenge (trim t) g1 g2 \<longleftrightarrow> first_challenge t g1 g2"
    by (rule first_challenge_trim)
  show "solveMathCaptcha labels = None \<longleftrightarrow> (\<forall>el\<in>set labels. \<not> challenge_in el)"
    by (simp add: solveMathCaptcha_None_iff regex_match_None_iff challenge_in_trim)
  show "decimal [] = 0"
    by (simp add: decimal_def)
  show "decimal (ds @ [c]) = 10 * decimal ds + digit_value c"
    by (rule decimal_snoc)
  show "map digit_value [0x30, 0x31, 0x32, 0x33, 0x34, 0x35, 0x36, 0x37, 0x38, 0x39]
       = [0, 1, 2, 3, 4, 5, 6, 7, 8, 9]"
    by (rule digit_values)
next
  assume "regex_match t = Some (g1, g2)"
  then show "\<exists>pre w1 w2 post. t = pre @ g1 @ w1 @ PLUS # w2 @ g2 @ post \<and> g1 \<noteq> [] \<and> g2 \<noteq> []
           \<and> list_all is_digit g1 \<and> list_all is_digit g2
           \<and> list_all is_space w1 \<and> list_all is_space w2"
    by (rule regex_match_sound)
next
  assume h: "(\<forall>el\<in>set before. \<not> challenge_in el) \<and> first_challenge el a b
        \<and> decimal a + decimal b < 2 ^ 53"
  then have skip: "\<forall>el\<in>set before. regex_match (trim el) = None"
    by (simp add: regex_match_None_iff challenge_in_trim)
  from h have m: "regex_match (trim el) = Some (a, b)"
    by (simp add: regex_match_first regex_match_trim)
  from regex_match_sound [OF m] have d: "list_all is_digit a" "list_all is_digit b"
    by auto
  from h have "number_add (to_number (decimal a)) (to_number (decimal b))
      = Finite (decimal a + decimal b)"
    by (simp add: number_add_small)
  then show "solveMathCaptcha (before @ el # after) = Some (Finite (decimal a + decimal b))"
    by (simp add: solveMathCaptcha_skip [OF skip] m parseInt_digits d)
qed

theorem solveMathCaptcha_sum_witness:
  "solveMathCaptcha [ascii ''Sign in'', ascii '' What is 12 + 34 = ? '', ascii ''1 + 1'']
     = Some (Finite 46)
   \<and> first_challenge (ascii ''a1 12 +  34b5+6'') (ascii ''12'') (ascii ''34'')
   \<and> challenge_in (ascii ''3 + 4'')
   \<and> solveMathCaptcha [ascii ''Sign in''] = None"
  using solveMathCaptcha_sum [where t = "ascii ''a1 12 +  34b5+6''" and ?g1.0 = "ascii ''12''"
      and ?g2.0 = "ascii ''34''" and labels = "[ascii ''Sign in'']"
      and before = "[ascii ''Sign in'']" and el = "ascii '' What is 12 + 34 = ? ''"
      and a = "ascii ''12''" and b = "ascii ''34''" and after = "[ascii ''1 + 1'']"
      and ds = "ascii ''4''" and c = "0x36"]
  by (simp add: challenge_in_iff regex_match_first [symmetric] captcha_eval to_number_def)

text \<open>
  Claim C9, as the code has it. The operands are JavaScript numbers: for the text
  \<^verbatim>\<open>9007199254740993 + 0\<close> the first operand is read as the nearest double,
  \<open>9007199254740992\<close>, and that is the result, not the integer sum.
\<close>

theorem captcha_sum_is_rounded:
  "regex_match (trim (ascii ''9007199254740993 + 0'')) = Some (ascii ''9007199254740993'', ascii ''0'')
   \<and> decimal (ascii ''9007199254740993'') + decimal (ascii ''0'') = 9007199254740993
   \<and> solveMathCaptcha [ascii ''9007199254740993 + 0''] = Some (Finite 9007199254740992)"
  by (simp add: captcha_eval to_number_def bit_length.simps Let_def)

section \<open>Effects of the functions\<close>

lemma dispatched_append [simp]: "dispatched (xs @ ys) = dispatched xs @ dispatched ys"
  by (induction xs rule: dispatched.induct) simp_all

lemma written_append [simp]: "written (xs @ ys) = written xs @ written ys"
  by (induction xs rule: written.induct) simp_all

lemma attempted_append [simp]: "attempted (xs @ ys) = attempted xs @ attempted ys"
  by (induction xs rule: attempted.induct) simp_all

lemma attempted_sends [simp]: "attempted (map (\<lambda>c. SendMessage c t (ok c)) chats) = chats"
  by (induction chats) simp_all

lemma dispatched_sends [simp]: "dispatched (map (\<lambda>c. SendMessage c t (ok c)) chats) = []"
  by (induction chats) simp_all

lemma written_sends [simp]: "written (map (\<lambda>c. SendMessage c t (ok c)) chats) = []"
  by (induction chats) simp_all

lemma initializeBrowser_quiet [simp]:
  "dispatched (effects (snd (initializeBrowser w st))) = dispatched (effects st)"
  "written (effects (snd (initializeBrowser w st))) = written (effects st)"
  by (simp_all add: initializeBrowser_def Let_def emit_def split: option.splits)



lemma sendOTP_effects:
  "effects (snd (sendOTPToTelegram_on chats ok m st)) =
     effects st @ Call_sendOTPToTelegram m # map (\<lambda>c. SendMessage c (format_otp m) (ok c)) chats"
  by (simp add: sendOTPToTelegram_on_result)

lemma sendOTP_reads [simp]:
  "dispatched (effects (snd (sendOTPToTelegram ok m st))) = dispatched (effects st) @ [m]"
  "written (effects (snd (sendOTPToTelegram ok m st))) = written (effects st)"
  by (simp_all add: sendOTPToTelegram_def sendOTP_effects)

lemma deliver_new_loop:
  "sentMessageHashes (fst (deliver_new w ms (st, n))) = loop_set (sentMessageHashes st) ms"
  "dispatched (effects (fst (deliver_new w ms (st, n))))
     = dispatched (effects st) @ loop_new (sentMessageHashes st) ms"
  "written (effects (fst (deliver_new w ms (st, n)))) = written (effects st)"
  "snd (deliver_new w ms (st, n)) = n + length (loop_new (sentMessageHashes st) ms)"
  by (induction ms arbitrary: st n; simp add: Let_def)+



lemma saveSentMessages_reads [simp]:
  "dispatched (effects (saveSentMessages w st)) = dispatched (effects st)"
  "written (effects (saveSentMessages w st))
     = written (effects st) @ [slice_last MAX_STORED_HASHES (sentMessageHashes st)]"
  by (simp_all add: saveSentMessages_def Let_def emit_def)



section \<open>One tick: delivery and persistence\<close>

lemma foldl_set_add_set: "set (foldl set_add acc xs) = set acc \<union> set xs"
  by (induction xs arbitrary: acc) auto

lemma new_Set_set [simp]: "set (new_Set xs) = set xs"
  by (simp add: new_Set_def foldl_set_add_set)

lemma remember_has: "\<not> set_has s h \<Longrightarrow> set_has (remember s h) h"
  by (simp add: remember_def Let_def set_has_def set_add_fresh slice_last_def)

lemma poll_flags_reads [simp]:
  "effects (poll_enter st) = effects st" "effects (poll_exit st) = effects st"
  "sentMessageHashes (poll_enter st) = sentMessageHashes st"
  "sentMessageHashes (poll_exit st) = sentMessageHashes st"
  "messages_file (poll_enter st) = messages_file st"
  "messages_file (poll_exit st) = messages_file st"
  by (simp_all add: poll_enter_def poll_exit_def)

lemma succeeded_append [simp]: "succeeded (xs @ ys) = succeeded xs @ succeeded ys"
  by (induction xs rule: succeeded.induct) simp_all

lemma initializeBrowser_silent [simp]:
  "attempted (effects (snd (initializeBrowser w st))) = attempted (effects st)"
  by (simp add: initializeBrowser_def Let_def emit_def split: option.splits)



lemma sendOTP_attempts [simp]:
  "attempted (effects (snd (sendOTPToTelegram ok m st))) = attempted (effects st) @ TELEGRAM_CHAT_IDS"
  by (simp add: sendOTPToTelegram_def sendOTP_effects)


lemma saveSentMessages_silent [simp]:
  "attempted (effects (saveSentMessages w st)) = attempted (effects st)"
  by (simp add: saveSentMessages_def Let_def emit_def)






text \<open>
  Claim C5. Whatever calls of \<^verbatim>\<open>bot.sendMessage\<close> fail, \<^verbatim>\<open>sendOTPToTelegram\<close> returns
  without throwing, has attempted every channel of the list in order, and leaves the set of
  hashes alone; the set that the loop of the tick leaves does not depend on the outcomes
  of the sends, and a record that was not in the set is in it after its turn.
\<close>

theorem dispatch_isolates_failures:
  "fst (sendOTPToTelegram_on chats ok m st) = Returned ()
   \<and> attempted (effects (snd (sendOTPToTelegram_on chats ok m st))) = attempted (effects st) @ chats
   \<and> sentMessageHashes (snd (sendOTPToTelegram_on chats ok m st)) = sentMessageHashes st
   \<and> sentMessageHashes (fst (deliver_new (w\<lparr>sendMessage_ok := failures\<rparr>) ms (st, n)))
       = sentMessageHashes (fst (deliver_new w ms (st, n)))
   \<and> (\<not> set_has (sentMessageHashes st) (hash m) \<longrightarrow>
        set_has (sentMessageHashes (fst (deliver_new w [m] (st, n)))) (hash m))"
proof -
  have "attempted (effects (snd (sendOTPToTelegram_on chats ok m st))) = attempted (effects st) @ chats"
    by (simp add: sendOTP_effects)
  moreover have "sentMessageHashes (fst (deliver_new (w\<lparr>sendMessage_ok := failures\<rparr>) ms (st, n)))
       = sentMessageHashes (fst (deliver_new w ms (st, n)))"
    by (simp add: deliver_new_loop)
  moreover have "\<not> set_has (sentMessageHashes st) (hash m) \<longrightarrow>
        set_has (sentMessageHashes (fst (deliver_new w [m] (st, n)))) (hash m)"
    by (simp add: deliver_new_loop remember_has)
  ultimately show ?thesis
    by (simp add: sendOTPToTelegram_on_result)
qed

theorem dispatch_isolates_failures_witness:
  "attempted (effects (snd (sendOTPToTelegram_on TELEGRAM_CHAT_IDS no_channel (sample_sms 1)
      (start_state No_file)))) = TELEGRAM_CHAT_IDS
   \<and> set_has (sentMessageHashes (fst (deliver_new telegram_down [sample_sms 1]
      (start_state No_file, 0)))) (hash (sample_sms 1))"
  using dispatch_isolates_failures [where chats = TELEGRAM_CHAT_IDS and ok = no_channel
      and m = "sample_sms 1" and st = "start_state No_file" and w = telegram_down
      and failures = never_sent and ms = "[sample_sms 1]" and n = 0]
  by (simp add: start_state_def set_has_def)

lemmas session_eval = ensureBrowserActive_def initializeBrowser_def emit_def Let_def
  start_state_def calm_world_def MAX_RECONNECT_ATTEMPTS_def RECONNECT_DELAY_def
  captcha_eval to_number_def




section \<open>Single flight and the session\<close>

lemma overlap_step_inv:
  assumes "snd p \<le> 1 \<and> (isPolling (fst p) \<longleftrightarrow> snd p = 1)"
  shows "snd (overlap_step p e) \<le> 1 \<and> (isPolling (fst (overlap_step p e)) \<longleftrightarrow> snd (overlap_step p e) = 1)"
proof (cases p)
  case (Pair st k)
  with assms show ?thesis
    by (cases e) (auto simp: poll_enter_def poll_exit_def)
qed

lemma overlap_fold_inv:
  "snd p \<le> 1 \<and> (isPolling (fst p) \<longleftrightarrow> snd p = 1) \<Longrightarrow>
   snd (foldl overlap_step p events) \<le> 1
   \<and> (isPolling (fst (foldl overlap_step p events)) \<longleftrightarrow> snd (foldl overlap_step p events) = 1)"
proof (induction events arbitrary: p)
  case Nil
  then show ?case by simp
next
  case (Cons e events)
  show ?case
    using Cons.IH [OF overlap_step_inv [OF Cons.prems, of e]] by simp
qed

text \<open>
  Claim C7. A call of \<^verbatim>\<open>pollSMSAPI\<close> that finds \<open>isPolling\<close> set returns the state as
  it is. Otherwise the body runs once between \<open>poll_enter\<close> and \<open>poll_exit\<close>, and
  whether it returns or throws the flag is clear afterwards. Under any sequence of timer
  callbacks and ends of bodies, at most one body is in flight, and the flag is set exactly
  while one is.
\<close>

theorem single_flight:
  "(isPolling st \<longrightarrow> pollSMSAPI md5 w st = st)
   \<and> (\<not> isPolling st \<longrightarrow>
        poll_frame body st = poll_exit (snd (body (poll_enter st)))
        \<and> \<not> isPolling (poll_frame body st)
        \<and> \<not> isPolling (pollSMSAPI md5 w st))
   \<and> (\<not> isPolling st \<longrightarrow>
        snd (overlap_run events st) \<le> 1
        \<and> (isPolling (fst (overlap_run events st)) \<longleftrightarrow> snd (overlap_run events st) = 1))"
proof (intro conjI impI)
  assume "isPolling st"
  then show "pollSMSAPI md5 w st = st"
    by (simp add: pollSMSAPI_def poll_frame_def)
next
  assume n: "\<not> isPolling st"
  show "poll_frame body st = poll_exit (snd (body (poll_enter st)))"
    by (rule poll_frame_exit [OF n])
  then show "\<not> isPolling (poll_frame body st)"
    by (simp add: poll_exit_def)
  show "\<not> isPolling (pollSMSAPI md5 w st)"
    by (simp add: pollSMSAPI_def poll_frame_exit [OF n] poll_exit_def)
  have "snd (st, 0 :: nat) \<le> 1 \<and> (isPolling (fst (st, 0 :: nat)) \<longleftrightarrow> snd (st, 0 :: nat) = 1)"
    using n by simp
  from overlap_fold_inv [OF this, of events]
  show "snd (overlap_run events st) \<le> 1"
    and "isPolling (fst (overlap_run events st)) \<longleftrightarrow> snd (overlap_run events st) = 1"
    by (simp_all add: overlap_run_def)
qed

theorem single_flight_witness:
  "\<not> isPolling (poll_frame throwing_body (start_state No_file))
   \<and> snd (overlap_run [Timer_fires, Timer_fires, Body_ends, Timer_fires] (start_state No_file)) \<le> 1
   \<and> pollSMSAPI sample_digest calm_world ((start_state No_file)\<lparr>isPolling := True\<rparr>)
       = (start_state No_file)\<lparr>isPolling := True\<rparr>"
  using single_flight [of "start_state No_file" sample_digest calm_world throwing_body
      "[Timer_fires, Timer_fires, Body_ends, Timer_fires]"]
    single_flight [of "(start_state No_file)\<lparr>isPolling := True\<rparr>" sample_digest calm_world
      throwing_body "[]"]
  by (simp add: start_state_def poll_exit_def)

text \<open>
  The two ways into a reconnection. After a failed probe the counter is compared with the
  maximum, and at the maximum nothing is launched; without a browser or a page the counter
  is not looked at, and a browser is launched whenever a path to it is found.
\<close>

lemma cap_checked_after_failed_probe:
  assumes "browser st \<noteq> None" and "page st \<noteq> None" and "\<not> probe_ok w"
    and "MAX_RECONNECT_ATTEMPTS \<le> reconnectAttempts st"
  shows "ensureBrowserActive w st =
     (False, st\<lparr>browser := None, page := None, effects := effects st @ [Probe, CloseBrowser]\<rparr>)"
  using assms by (auto simp: ensureBrowserActive_def Let_def emit_def)

lemma cap_not_checked_without_browser:
  assumes "browser st = None \<or> page st = None"
  shows "ensureBrowserActive w st = initializeBrowser w st"
  using assms by (simp add: ensureBrowserActive_def)

lemma initializeBrowser_launches:
  assumes "chromePath_ok w"
  shows "Launch \<in> set (drop (length (effects st)) (effects (snd (initializeBrowser w st))))"
  using assms by (simp add: initializeBrowser_def Let_def emit_def split: option.splits)

text \<open>
  Claim C1, on the code. A session dies and five reconnections in a row fail at the login
  page: the counter is 5. The sixth call finds the probe failing, closes the browser and
  returns \<^verbatim>\<open>false\<close> without a launch. But it leaves \<^verbatim>\<open>browser\<close> and \<^verbatim>\<open>page\<close> at
  \<^verbatim>\<open>null\<close>, so the seventh call takes the first branch of \<^verbatim>\<open>ensureBrowserActive\<close>, which
  does not look at the counter: it launches a browser and navigates again, and returns
  \<^verbatim>\<open>true\<close> if the login now succeeds.
\<close>

theorem reconnect_cap_bypassed:
  "fst (ensure_all [dead_world, dead_world, dead_world, dead_world, dead_world, dead_world]
        logged_in) = [False, False, False, False, False, False]
   \<and> reconnectAttempts (snd (ensure_all
        [dead_world, dead_world, dead_world, dead_world, dead_world, dead_world] logged_in)) = 5
   \<and> drop 30 (effects (snd (ensure_all
        [dead_world, dead_world, dead_world, dead_world, dead_world, dead_world] logged_in)))
      = [Probe, CloseBrowser]
   \<and> fst (ensure_all
        [dead_world, dead_world, dead_world, dead_world, dead_world, dead_world, dead_world]
        logged_in) = [False, False, False, False, False, False, False]
   \<and> drop 32 (effects (snd (ensure_all
        [dead_world, dead_world, dead_world, dead_world, dead_world, dead_world, dead_world]
        logged_in)))
      = [Launch, NewPage, Goto LOGIN_URL]
   \<and> fst (ensure_all
        [dead_world, dead_world, dead_world, dead_world, dead_world, dead_world, calm_world]
        logged_in) = [False, False, False, False, False, False, True]"
  by (simp add: session_eval dead_world_def logged_in_def)

text \<open>
  Claim C6, on the code. When the login page shows no challenge, \<^verbatim>\<open>initializeBrowser\<close>
  returns \<^verbatim>\<open>false\<close> and leaves the browser and the page it has created in the variables,
  without closing them, and the counter as it was. The next call of
  \<^verbatim>\<open>ensureBrowserActive\<close> then only probes that page and reports an active session.
\<close>

theorem failed_login_keeps_browser:
  "fst (ensureBrowserActive no_captcha_world (start_state No_file)) = False
   \<and> browser (snd (ensureBrowserActive no_captcha_world (start_state No_file)))
       = Some (Browser_handle 1)
   \<and> page (snd (ensureBrowserActive no_captcha_world (start_state No_file)))
       = Some (Page_handle 1)
   \<and> reconnectAttempts (snd (ensureBrowserActive no_captcha_world (start_state No_file))) = 0
   \<and> effects (snd (ensureBrowserActive no_captcha_world (start_state No_file)))
       = [Launch, NewPage, Goto LOGIN_URL, Wait 1000, EvaluateCaptcha]
   \<and> fst (ensure_all [no_captcha_world, calm_world] (start_state No_file)) = [False, True]
   \<and> effects (snd (ensure_all [no_captcha_world, calm_world] (start_state No_file)))
       = [Launch, NewPage, Goto LOGIN_URL, Wait 1000, EvaluateCaptcha, Probe]"
  by (simp add: session_eval no_captcha_world_def)

lemma initializeBrowser_success:
  "fst (initializeBrowser w st) \<Longrightarrow>
   reconnectAttempts (snd (initializeBrowser w st)) = 0
   \<and> browser (snd (initializeBrowser w st)) \<noteq> None
   \<and> page (snd (initializeBrowser w st)) \<noteq> None"
  by (auto simp: initializeBrowser_def Let_def emit_def split: option.splits if_splits)

lemma initializeBrowser_failure:
  "\<not> fst (initializeBrowser w st) \<Longrightarrow>
   reconnectAttempts (snd (initializeBrowser w st)) = reconnectAttempts st
   \<and> CloseBrowser \<notin> set (drop (length (effects st)) (effects (snd (initializeBrowser w st))))"
  by (auto simp: initializeBrowser_def Let_def emit_def split: option.splits if_splits)

section \<open>Deduplication within a batch\<close>

lemma loop_append:
  "loop_set s (xs @ ys) = loop_set (loop_set s xs) ys"
  "loop_new s (xs @ ys) = loop_new s xs @ loop_new (loop_set s xs) ys"
  by (induction xs arbitrary: s) simp_all

lemma loop_fresh:
  "distinct (s @ map hash ms) \<Longrightarrow> length s + length ms \<le> MAX_STORED_HASHES \<Longrightarrow>
   loop_new s ms = ms \<and> loop_set s ms = s @ map hash ms"
proof (induction ms arbitrary: s)
  case Nil
  then show ?case by simp
next
  case (Cons m ms)
  from Cons.prems have fresh: "hash m \<notin> set s" by auto
  then have add: "set_add s (hash m) = s @ [hash m]" by (rule set_add_fresh)
  with Cons.prems(2) have r: "remember s (hash m) = s @ [hash m]"
    by (simp add: remember_no_overflow)
  have "distinct ((s @ [hash m]) @ map hash ms)"
    and "length (s @ [hash m]) + length ms \<le> MAX_STORED_HASHES"
    using Cons.prems by auto
  from Cons.IH [OF this] show ?case
    using fresh by (simp add: set_has_def r)
qed

lemma loop_no_overflow:
  "length s + card (hash ` set ms - set s) \<le> MAX_STORED_HASHES \<Longrightarrow>
   loop_set s ms = s @ map hash (loop_new s ms)
   \<and> distinct (map hash (loop_new s ms))
   \<and> hash ` set (loop_new s ms) = hash ` set ms - set s"
proof (induction ms arbitrary: s)
  case Nil
  then show ?case by simp
next
  case (Cons m ms)
  show ?case
  proof (cases "hash m \<in> set s")
    case True
    then have "hash ` set (m # ms) - set s = hash ` set ms - set s" by auto
    with Cons.prems have "length s + card (hash ` set ms - set s) \<le> MAX_STORED_HASHES"
      by simp
    from Cons.IH [OF this] True show ?thesis
      by (auto simp: set_has_def)
  next
    case False
    define A where "A = hash ` set (m # ms) - set s"
    define s' where "s' = s @ [hash m]"
    have fin: "finite A" by (simp add: A_def)
    have inA: "hash m \<in> A" using False by (simp add: A_def)
    have pos: "card A = Suc (card (A - {hash m}))"
      by (rule card.remove [OF fin inA])
    have eq: "hash ` set ms - set s' = A - {hash m}"
      unfolding A_def s'_def by auto
    have prem: "length s + card A \<le> MAX_STORED_HASHES"
      using Cons.prems unfolding A_def .
    have add: "set_add s (hash m) = s'"
      unfolding s'_def using False by (rule set_add_fresh)
    have "length s' \<le> MAX_STORED_HASHES"
      using prem pos by (simp add: s'_def)
    then have r: "remember s (hash m) = s'"
      by (simp add: remember_no_overflow add)
    have "length s' + card (hash ` set ms - set s') \<le> MAX_STORED_HASHES"
      unfolding eq using prem pos by (simp add: s'_def)
    from Cons.IH [OF this]
    have ih1: "loop_set s' ms = s' @ map hash (loop_new s' ms)"
      and ih2: "distinct (map hash (loop_new s' ms))"
      and ih3: "hash ` set (loop_new s' ms) = A - {hash m}"
      unfolding eq by blast+
    have step: "loop_set s (m # ms) = loop_set s' ms" "loop_new s (m # ms) = m # loop_new s' ms"
      using False by (simp_all add: set_has_def r)
    have g1: "loop_set s' ms = s @ map hash (m # loop_new s' ms)"
      using ih1 by (simp add: s'_def)
    have "hash m \<notin> hash ` set (loop_new s' ms)"
      unfolding ih3 by simp
    then have g2: "distinct (map hash (m # loop_new s' ms))"
      using ih2 by simp
    have "hash ` set (m # loop_new s' ms) = insert (hash m) (A - {hash m})"
      using ih3 by simp
    also have "\<dots> = A" using inA by auto
    finally have g3: "hash ` set (m # loop_new s' ms) = hash ` set (m # ms) - set s"
      unfolding A_def .
    show ?thesis
      unfolding step using g1 g2 g3 by blast
  qed
qed

lemma fresh_count:
  "length (remdups (filter (\<lambda>h. \<not> set_has s h) (map hash ms))) = card (hash ` set ms - set s)"
proof -
  have "set (filter (\<lambda>h. \<not> set_has s h) (map hash ms)) = hash ` set ms - set s"
    by (auto simp: set_has_def)
  then show ?thesis
    by (simp add: length_remdups_card_conv)
qed

lemma new_dispatches_loop:
  "new_dispatches st (fst (deliver_new w ms (st, n))) = loop_new (sentMessageHashes st) ms"
  by (simp add: new_dispatches_def deliver_new_loop)

lemma string_cell: "is_string c \<Longrightarrow> template c = or_empty c"
  by (cases c) simp_all

lemma msgData_of_fields:
  "string_cells r \<Longrightarrow>
   msgData r = date (message_of_row md5 r) @ ''_'' @ destination_addr (message_of_row md5 r)
     @ ''_'' @ source_addr (message_of_row md5 r) @ ''_'' @ short_message (message_of_row md5 r)"
  by (simp add: string_cells_def msgData_def message_of_row_def string_cell)

text \<open>
  Claim C3, amended. Two rows with the same cells 0, 2, 3 and 5 (timestamp, destination,
  source, content) get the same hash; when these cells are strings they are the fields of
  the record, so that two records with the same four fields have the same hash. A record whose hash is in the set when its turn comes
  is skipped; a record whose hash is not in the set is handed to \<^verbatim>\<open>sendOTPToTelegram\<close>
  and its hash is in the set at once. When the set and the new hashes of the batch together
  fit in the cap, so that nothing is evicted during the tick, every new hash of the batch is
  dispatched exactly once: a duplicate later in the batch is filtered out.
\<close>

theorem duplicates_filtered:
  "(cell_at r1 0 = cell_at r2 0 \<and> cell_at r1 2 = cell_at r2 2 \<and> cell_at r1 3 = cell_at r2 3
      \<and> cell_at r1 5 = cell_at r2 5 \<longrightarrow>
      hash (message_of_row md5 r1) = hash (message_of_row md5 r2))
   \<and> (string_cells r1 \<and> string_cells r2
        \<and> date (message_of_row md5 r1) = date (message_of_row md5 r2)
        \<and> destination_addr (message_of_row md5 r1) = destination_addr (message_of_row md5 r2)
        \<and> source_addr (message_of_row md5 r1) = source_addr (message_of_row md5 r2)
        \<and> short_message (message_of_row md5 r1) = short_message (message_of_row md5 r2) \<longrightarrow>
        hash (message_of_row md5 r1) = hash (message_of_row md5 r2))
   \<and> (set_has (sentMessageHashes st) (hash m) \<longrightarrow>
        deliver_new w (m # ms) (st, n) = deliver_new w ms (st, n))
   \<and> (\<not> set_has (sentMessageHashes st) (hash m) \<longrightarrow>
        new_dispatches st (fst (deliver_new w [m] (st, n))) = [m]
        \<and> set_has (sentMessageHashes (fst (deliver_new w [m] (st, n)))) (hash m))
   \<and> (length (sentMessageHashes st)
         + length (remdups (filter (\<lambda>h. \<not> set_has (sentMessageHashes st) h) (map hash ms)))
         \<le> MAX_STORED_HASHES \<longrightarrow>
        distinct (map hash (new_dispatches st (fst (deliver_new w ms (st, n)))))
        \<and> hash ` set (new_dispatches st (fst (deliver_new w ms (st, n))))
            = hash ` set ms - set (sentMessageHashes st))"
proof (intro conjI impI)
  assume "cell_at r1 0 = cell_at r2 0 \<and> cell_at r1 2 = cell_at r2 2 \<and> cell_at r1 3 = cell_at r2 3
      \<and> cell_at r1 5 = cell_at r2 5"
  then have "msgData r1 = msgData r2" by (simp add: msgData_def)
  then show "hash (message_of_row md5 r1) = hash (message_of_row md5 r2)"
    by (simp add: message_of_row_def)
next
  assume a: "string_cells r1 \<and> string_cells r2
        \<and> date (message_of_row md5 r1) = date (message_of_row md5 r2)
        \<and> destination_addr (message_of_row md5 r1) = destination_addr (message_of_row md5 r2)
        \<and> source_addr (message_of_row md5 r1) = source_addr (message_of_row md5 r2)
        \<and> short_message (message_of_row md5 r1) = short_message (message_of_row md5 r2)"
  then have "msgData r1 = msgData r2"
    using msgData_of_fields [of r1 md5] msgData_of_fields [of r2 md5] by simp
  then show "hash (message_of_row md5 r1) = hash (message_of_row md5 r2)"
    by (simp add: message_of_row_def)
next
  assume "set_has (sentMessageHashes st) (hash m)"
  then show "deliver_new w (m # ms) (st, n) = deliver_new w ms (st, n)" by simp
next
  assume f: "\<not> set_has (sentMessageHashes st) (hash m)"
  have "new_dispatches st (fst (deliver_new w [m] (st, n))) = loop_new (sentMessageHashes st) [m]"
    by (rule new_dispatches_loop)
  with f show "new_dispatches st (fst (deliver_new w [m] (st, n))) = [m]"
    by simp
  have "sentMessageHashes (fst (deliver_new w [m] (st, n))) = loop_set (sentMessageHashes st) [m]"
    by (rule deliver_new_loop)
  with f show "set_has (sentMessageHashes (fst (deliver_new w [m] (st, n)))) (hash m)"
    by (simp add: remember_has)
next
  assume "length (sentMessageHashes st)
         + length (remdups (filter (\<lambda>h. \<not> set_has (sentMessageHashes st) h) (map hash ms)))
         \<le> MAX_STORED_HASHES"
  then have "length (sentMessageHashes st) + card (hash ` set ms - set (sentMessageHashes st))
      \<le> MAX_STORED_HASHES"
    by (simp add: fresh_count)
  from loop_no_overflow [OF this]
  show "distinct (map hash (new_dispatches st (fst (deliver_new w ms (st, n)))))"
    and "hash ` set (new_dispatches st (fst (deliver_new w ms (st, n))))
            = hash ` set ms - set (sentMessageHashes st)"
    by (simp_all add: new_dispatches_loop)
qed

theorem duplicates_filtered_witness:
  "hash (message_of_row sample_digest
      [Str ''10:00'', Str ''range A'', Str ''15550100'', Str ''Service'', Str ''c1'', Str ''code 1'']) =
   hash (message_of_row sample_digest
      [Str ''10:00'', Str ''range B'', Str ''15550100'', Str ''Service'', Str ''c2'', Str ''code 1''])
   \<and> distinct (map hash (new_dispatches (start_state No_file)
        (fst (deliver_new calm_world [sample_sms 1, sample_sms 2, sample_sms 1]
           (start_state No_file, 0)))))
   \<and> deliver_new calm_world [sample_sms 1]
        ((start_state No_file)\<lparr>sentMessageHashes := [sample_hash 1]\<rparr>, 0)
      = ((start_state No_file)\<lparr>sentMessageHashes := [sample_hash 1]\<rparr>, 0)"
  using duplicates_filtered [where ?r1.0 =
        "[Str ''10:00'', Str ''range A'', Str ''15550100'', Str ''Service'', Str ''c1'', Str ''code 1'']"
      and ?r2.0 =
        "[Str ''10:00'', Str ''range B'', Str ''15550100'', Str ''Service'', Str ''c2'', Str ''code 1'']"
      and ?md5.0 = sample_digest and st = "start_state No_file" and m = "sample_sms 1"
      and ms = "[sample_sms 1, sample_sms 2, sample_sms 1]" and w = calm_world and n = 0]
    duplicates_filtered [where ?r1.0 = "[]" and ?r2.0 = "[]" and ?md5.0 = sample_digest
      and st = "(start_state No_file)\<lparr>sentMessageHashes := [sample_hash 1]\<rparr>"
      and m = "sample_sms 1" and ms = "[]" and w = calm_world and n = 0]
  by (simp add: cell_at_def start_state_def set_has_def MAX_STORED_HASHES_def string_cells_def
      sample_sms_def)

text \<open>
  The hash is taken from the cells and the fields from \<^verbatim>\<open>cell || ''\<close>: a row with a
  \<^verbatim>\<open>null\<close> timestamp and a row with an empty one give records with the same fields, but
  the digest is taken of different texts.
\<close>

lemma null_cell_other_text:
  "date (message_of_row md5 [Null]) = date (message_of_row md5 [Str []])
   \<and> msgData [Null] = ''null_undefined_undefined_undefined''
   \<and> msgData [Str []] = ''_undefined_undefined_undefined''"
  by (simp add: message_of_row_def msgData_def cell_at_def)

lemma hash_sample [simp]: "hash (sample_sms n) = sample_hash n"
  by (simp add: sample_sms_def)

lemma sample_batch_hashes [simp]: "map hash (sample_batch k) = sample_hashes k"
  by (simp add: sample_batch_def sample_hashes_def)

lemma sample_batch_length [simp]: "length (sample_batch k) = k"
  by (simp add: sample_batch_def)

lemma sample_batch_Suc: "sample_batch (Suc k) = sample_batch k @ [sample_sms k]"
  by (simp add: sample_batch_def)

lemma sample_hashes_Suc: "sample_hashes (Suc k) = sample_hashes k @ [sample_hash k]"
  by (simp add: sample_hashes_def)

lemma sample_hashes_drop_mem:
  "sample_hash n \<in> set (drop j (sample_hashes k)) \<longleftrightarrow> j \<le> n \<and> n < k"
  by (auto simp: sample_hashes_def drop_map dest: sample_hash_inj)

text \<open>
  Claim C3, as the code has it. A process with an empty set fetches a batch of 1002
  records: 1001 with different hashes, and the first one once more at the end. The
  1001st insertion cuts the set down to its last 500 entries, which evicts the hash of the
  first record, so the duplicate at the end of the same batch is dispatched again.
\<close>

theorem duplicate_sent_again_after_overflow:
  "new_dispatches (start_state No_file)
     (fst (deliver_new calm_world (sample_batch 1001 @ [sample_sms 0]) (start_state No_file, 0)))
   = sample_batch 1001 @ [sample_sms 0]"
proof -
  have split: "sample_batch 1001 = sample_batch 1000 @ [sample_sms 1000]"
    using sample_batch_Suc [of 1000] by simp
  have d: "distinct ([] @ map hash (sample_batch 1000))"
    by simp
  have "length ([] :: string list) + length (sample_batch 1000) \<le> MAX_STORED_HASHES"
    by (simp add: MAX_STORED_HASHES_def)
  from loop_fresh [OF d this]
  have a: "loop_new [] (sample_batch 1000) = sample_batch 1000"
    "loop_set [] (sample_batch 1000) = sample_hashes 1000"
    by simp_all
  have "length (set_add (sample_hashes 1000) (sample_hash 1000)) > MAX_STORED_HASHES"
    by (simp add: set_add_fresh MAX_STORED_HASHES_def)
  then have r: "remember (sample_hashes 1000) (sample_hash 1000)
      = drop 501 (sample_hashes 1000 @ [sample_hash 1000])"
    by (intro remember_overflow) (simp_all add: MAX_STORED_HASHES_def)
  have "sample_hashes 1001 = sample_hashes 1000 @ [sample_hash 1000]"
    using sample_hashes_Suc [of 1000] by simp
  with r have r': "remember (sample_hashes 1000) (sample_hash 1000) = drop 501 (sample_hashes 1001)"
    by simp
  have gone: "\<not> set_has (drop 501 (sample_hashes 1001)) (sample_hash 0)"
    by (simp add: set_has_def sample_hashes_drop_mem)
  have b: "loop_new (sample_hashes 1000) [sample_sms 1000, sample_sms 0]
      = [sample_sms 1000, sample_sms 0]"
    using gone by (simp add: set_has_def r')
  have "loop_new [] (sample_batch 1001 @ [sample_sms 0])
      = loop_new [] (sample_batch 1000 @ [sample_sms 1000, sample_sms 0])"
    by (simp add: split)
  also have "\<dots> = sample_batch 1000 @ [sample_sms 1000, sample_sms 0]"
    by (simp only: loop_append a b)
  also have "\<dots> = sample_batch 1001 @ [sample_sms 0]"
    by (simp add: split)
  finally show ?thesis
    by (simp add: new_dispatches_loop start_state_def)
qed

end
